theory Spec2Isabelle
  imports Main "HOL-Library.Word" "HOL-Library.Multiset"
begin

section \<open>Machine integers\<close>

text \<open>
  Go's \<^verbatim>\<open>int32\<close> and \<^verbatim>\<open>int64\<close> are two's-complement machine integers: addition and
  subtraction wrap around silently, comparisons are signed. They are modelled as words,
  compared with \<open><s\<close> and \<open>\<le>s\<close> and read with \<open>sint\<close>.
\<close>

type_synonym int32 = "32 word"
type_synonym int64 = "64 word"

text \<open>
  \<^verbatim>\<open>integer.Int32Min\<close> of k8s.io/client-go/util/integer (an external library):
  \<^verbatim>\<open>if b < a { return b }; return a\<close>.
\<close>

definition Int32Min :: "int32 \<Rightarrow> int32 \<Rightarrow> int32" where
  "Int32Min a b = (if b <s a then b else a)"

section \<open>Data model\<close>

text \<open>
  The API types are declared outside the files under verification; the records hold the
  fields that the controller code reads and writes. \<^verbatim>\<open>Spec.Replicas\<close> is a \<^verbatim>\<open>*int32\<close>,
  hence an option.
\<close>

record machine_set =
  ms_Name :: string
  ms_CreationTimestamp :: int
  ms_Spec_Replicas :: "int32 option"
  ms_Status_Replicas :: int32
  ms_Status_ReadyReplicas :: int32
  ms_Status_AvailableReplicas :: int32

record machine_deployment_status =
  ObservedGeneration :: int64
  Replicas :: int32
  UpdatedReplicas :: int32
  ReadyReplicas :: int32
  AvailableReplicas :: int32
  UnavailableReplicas :: int32

record machine_deployment =
  md_Name :: string
  md_Generation :: int64
  md_Spec_Replicas :: "int32 option"
  md_Status :: machine_deployment_status

text \<open>
  Every \<^verbatim>\<open>fmt.Errorf\<close> of rolling.go is a constructor; \<open>StoreError\<close> is an error
  returned by the object store, \<open>NilDereference\<close> the panic of dereferencing a nil
  \<^verbatim>\<open>*int32\<close>, \<open>CollaboratorError\<close> an error returned by a collaborator.
\<close>

datatype error =
    NilDeploymentReplicas string
  | NilMachineSetReplicas string
  | InvalidCleanup string int32 int32
  | InvalidScaleDown string int32 int32
  | StoreError
  | NilDereference
  | CollaboratorError string

section \<open>The object store\<close>

text \<open>
  Each request sent to the store, and each invocation of the cleanup hook, is appended to
  \<open>trace\<close>. \<open>faults\<close> lists the outcomes of the store requests to come: \<open>True\<close>
  makes the next request fail, and an exhausted list means that every further request
  succeeds.
\<close>

datatype event =
    ScaleRequest machine_set int32
  | CleanupHook "machine_set list"
  | StatusUpdate machine_deployment

record store =
  trace :: "event list"
  faults :: "bool list"

definition storeRequest :: "store \<Rightarrow> event \<Rightarrow> store \<times> bool" where
  "storeRequest st ev =
     (case faults st of
        [] \<Rightarrow> (st\<lparr>trace := trace st @ [ev]\<rparr>, True)
      | f # fs \<Rightarrow> (st\<lparr>trace := trace st @ [ev], faults := fs\<rparr>, \<not> f))"

text \<open>
  Modelled from the spec: \<^verbatim>\<open>scaleMachineSet\<close> (the set mutator, section 4.5) is not among
  the files under verification. \<^verbatim>\<open>scale(set, n, d)\<close> writes \<^verbatim>\<open>set.spec.replicas = n\<close> if and
  only if \<^verbatim>\<open>n != set.spec.replicas\<close>, otherwise it is a no-op; a conflict with the store is
  returned as an error. A nil replica count is the invariant violation of section 9.
  The first component of the result says whether a write was made.
\<close>

definition scaleMachineSet ::
  "store \<Rightarrow> machine_set \<Rightarrow> int32 \<Rightarrow> machine_deployment \<Rightarrow> store \<times> (error + bool \<times> machine_set)" where
  "scaleMachineSet st ms newScale deployment =
     (case ms_Spec_Replicas ms of
        None \<Rightarrow> (st, Inl (NilMachineSetReplicas (ms_Name ms)))
      | Some r \<Rightarrow>
          if r = newScale then (st, Inr (False, ms))
          else (case storeRequest st (ScaleRequest ms newScale) of
                  (st', ok) \<Rightarrow>
                    if ok then (st', Inr (True, ms\<lparr>ms_Spec_Replicas := Some newScale\<rparr>))
                    else (st', Inl StoreError)))"

section \<open>Arithmetic primitives\<close>

text \<open>
  Modelled from the spec: \<^verbatim>\<open>dutil.GetReplicaCountForMachineSets\<close> is not among the files
  under verification. Section 4.1: \<^verbatim>\<open>totalReplicas(sets)\<close> is the sum of
  \<^verbatim>\<open>set.spec.replicas\<close>; the sum is taken in \<^verbatim>\<open>int32\<close>. A set whose replica count is nil
  has no summand: that is the invariant violation of section 9, a failed dereference.
\<close>

fun GetReplicaCountForMachineSets :: "machine_set list \<Rightarrow> error + int32" where
  "GetReplicaCountForMachineSets [] = Inr 0"
| "GetReplicaCountForMachineSets (ms # rest) =
     (case ms_Spec_Replicas ms of
        None \<Rightarrow> Inl NilDereference
      | Some r \<Rightarrow>
          (case GetReplicaCountForMachineSets rest of
             Inl e \<Rightarrow> Inl e
           | Inr totalReplicas \<Rightarrow> Inr (r + totalReplicas)))"

text \<open>
  Modelled from the spec: \<^verbatim>\<open>dutil.GetAvailableReplicaCountForMachineSets\<close> is not among the
  files under verification. Section 4.1: \<^verbatim>\<open>totalAvailable(sets)\<close> is the sum of
  \<^verbatim>\<open>set.status.availableReplicas\<close>.
\<close>

fun GetAvailableReplicaCountForMachineSets :: "machine_set list \<Rightarrow> int32" where
  "GetAvailableReplicaCountForMachineSets [] = 0"
| "GetAvailableReplicaCountForMachineSets (ms # rest) =
     ms_Status_AvailableReplicas ms + GetAvailableReplicaCountForMachineSets rest"

text \<open>
  Modelled from the spec: \<^verbatim>\<open>dutil.MachineSetsByCreationTimestamp\<close> is not among the files
  under verification. The spec has the old sets traversed in ascending creation order;
  sets created at the same instant keep the order they came in.
\<close>

definition sortByCreationTimestamp :: "machine_set list \<Rightarrow> machine_set list" where
  "sortByCreationTimestamp mss = sort_key ms_CreationTimestamp mss"

section \<open>The scale-down planner\<close>

text \<open>
  A \<^verbatim>\<open>continue\<close> of a loop over the old sets leaves the set in its place in the slice and
  goes on with the rest.
\<close>

definition keepSet ::
  "machine_set \<Rightarrow> store \<times> (error + machine_set list \<times> int32) \<Rightarrow>
   store \<times> (error + machine_set list \<times> int32)" where
  "keepSet ms res =
     (case res of
        (st, Inl e) \<Rightarrow> (st, Inl e)
      | (st, Inr (rest, n)) \<Rightarrow> (st, Inr (ms # rest, n)))"

text \<open>
  The loop of \<^verbatim>\<open>cleanupUnhealthyReplicas\<close> (rolling.go, lines 169 to 203) over the sorted
  slice, with \<^verbatim>\<open>totalScaledDown\<close> as accumulator. Every error return of the source gives
  back a nil slice, so an error carries no list.
\<close>

fun cleanupLoop ::
  "store \<Rightarrow> machine_deployment \<Rightarrow> int32 \<Rightarrow> int32 \<Rightarrow> machine_set list \<Rightarrow>
   store \<times> (error + machine_set list \<times> int32)" where
  "cleanupLoop st deployment maxCleanupCount totalScaledDown [] =
     (st, Inr ([], totalScaledDown))"
| "cleanupLoop st deployment maxCleanupCount totalScaledDown (targetMS # rest) =
     (case ms_Spec_Replicas targetMS of
        None \<Rightarrow> (st, Inl (NilMachineSetReplicas (ms_Name targetMS)))
      | Some oldMSReplicas \<Rightarrow>
          if maxCleanupCount \<le>s totalScaledDown then (st, Inr (targetMS # rest, totalScaledDown))
          else if oldMSReplicas = 0 then
            keepSet targetMS (cleanupLoop st deployment maxCleanupCount totalScaledDown rest)
          else
            let oldMSAvailableReplicas = ms_Status_AvailableReplicas targetMS in
            if oldMSReplicas = oldMSAvailableReplicas then
              keepSet targetMS (cleanupLoop st deployment maxCleanupCount totalScaledDown rest)
            else
              let remainingCleanupCount = maxCleanupCount - totalScaledDown;
                  unhealthyCount = oldMSReplicas - oldMSAvailableReplicas;
                  scaledDownCount = Int32Min remainingCleanupCount unhealthyCount;
                  newReplicasCount = oldMSReplicas - scaledDownCount
              in
                if oldMSReplicas <s newReplicasCount then
                  (st, Inl (InvalidCleanup (ms_Name targetMS) oldMSReplicas newReplicasCount))
                else
                  (case scaleMachineSet st targetMS newReplicasCount deployment of
                     (st', Inl err) \<Rightarrow> (st', Inl err)
                   | (st', Inr (_, updatedOldMS)) \<Rightarrow>
                       keepSet updatedOldMS
                         (cleanupLoop st' deployment maxCleanupCount
                            (totalScaledDown + scaledDownCount) rest)))"

definition cleanupUnhealthyReplicas ::
  "store \<Rightarrow> machine_set list \<Rightarrow> machine_deployment \<Rightarrow> int32 \<Rightarrow>
   store \<times> (error + machine_set list \<times> int32)" where
  "cleanupUnhealthyReplicas st oldMSs deployment maxCleanupCount =
     cleanupLoop st deployment maxCleanupCount 0 (sortByCreationTimestamp oldMSs)"

text \<open>
  The loop of \<^verbatim>\<open>scaleDownOldMachineSetsForRollingUpdate\<close> (lines 231 to 256). The source
  returns the count and the slice next to an error; its only caller drops both, so an
  error carries neither.
\<close>

fun scaleDownLoop ::
  "store \<Rightarrow> machine_deployment \<Rightarrow> int32 \<Rightarrow> int32 \<Rightarrow> machine_set list \<Rightarrow>
   store \<times> (error + machine_set list \<times> int32)" where
  "scaleDownLoop st deployment totalScaleDownCount totalScaledDown [] =
     (st, Inr ([], totalScaledDown))"
| "scaleDownLoop st deployment totalScaleDownCount totalScaledDown (ms # rest) =
     (case ms_Spec_Replicas ms of
        None \<Rightarrow> (st, Inl (NilMachineSetReplicas (ms_Name ms)))
      | Some replicas \<Rightarrow>
          if totalScaleDownCount \<le>s totalScaledDown then (st, Inr (ms # rest, totalScaledDown))
          else if replicas = 0 then
            keepSet ms (scaleDownLoop st deployment totalScaleDownCount totalScaledDown rest)
          else
            let scaleDownCount = Int32Min replicas (totalScaleDownCount - totalScaledDown);
                newReplicasCount = replicas - scaleDownCount
            in
              if replicas <s newReplicasCount then
                (st, Inl (InvalidScaleDown (ms_Name ms) replicas newReplicasCount))
              else
                (case scaleMachineSet st ms newReplicasCount deployment of
                   (st', Inl err) \<Rightarrow> (st', Inl err)
                 | (st', Inr (_, updatedMS)) \<Rightarrow>
                     keepSet updatedMS
                       (scaleDownLoop st' deployment totalScaleDownCount
                          (totalScaledDown + scaleDownCount) rest)))"

text \<open>
  \<^verbatim>\<open>dutil.MaxUnavailable\<close> is not among the files under verification and resolves
  percentages in floating point; it is a parameter of the functions that call it.
\<close>

definition scaleDownOldMachineSetsForRollingUpdate ::
  "(machine_deployment \<Rightarrow> int32) \<Rightarrow> store \<Rightarrow> machine_set list \<Rightarrow> machine_set list \<Rightarrow>
   machine_deployment \<Rightarrow> store \<times> (error + int32 \<times> machine_set list)" where
  "scaleDownOldMachineSetsForRollingUpdate MaxUnavailable st allMSs oldMSs deployment =
     (case md_Spec_Replicas deployment of
        None \<Rightarrow> (st, Inl (NilDeploymentReplicas (md_Name deployment)))
      | Some replicas \<Rightarrow>
          let maxUnavailable = MaxUnavailable deployment;
              minAvailable = replicas - maxUnavailable;
              availableMachineCount = GetAvailableReplicaCountForMachineSets allMSs
          in
            if availableMachineCount \<le>s minAvailable then (st, Inr (0, oldMSs))
            else
              (case scaleDownLoop st deployment (availableMachineCount - minAvailable) 0
                      (sortByCreationTimestamp oldMSs) of
                 (st', Inl err) \<Rightarrow> (st', Inl err)
               | (st', Inr (oldMSs', totalScaledDown)) \<Rightarrow>
                   (st', Inr (totalScaledDown, oldMSs'))))"

text \<open>
  \<^verbatim>\<open>reconcileOldMachineSets\<close> (lines 88 to 160). At line 145 the result of the cleanup is
  assigned to \<^verbatim>\<open>oldMSs\<close>, a nil slice when the cleanup fails, and line 147 returns it with
  a nil error.
\<close>

definition reconcileOldMachineSets ::
  "(machine_deployment \<Rightarrow> int32) \<Rightarrow> store \<Rightarrow> machine_set list \<Rightarrow> machine_set list \<Rightarrow>
   machine_set \<Rightarrow> machine_deployment \<Rightarrow> store \<times> (error + machine_set list)" where
  "reconcileOldMachineSets MaxUnavailable st allMSs oldMSs newMS deployment =
     (case md_Spec_Replicas deployment of
        None \<Rightarrow> (st, Inl (NilDeploymentReplicas (md_Name deployment)))
      | Some replicas \<Rightarrow>
     (case ms_Spec_Replicas newMS of
        None \<Rightarrow> (st, Inl (NilMachineSetReplicas (ms_Name newMS)))
      | Some newReplicas \<Rightarrow>
     (case GetReplicaCountForMachineSets oldMSs of
        Inl e \<Rightarrow> (st, Inl e)
      | Inr oldMachinesCount \<Rightarrow>
          if oldMachinesCount = 0 then (st, Inr oldMSs)
          else
     (case GetReplicaCountForMachineSets allMSs of
        Inl e \<Rightarrow> (st, Inl e)
      | Inr allMachinesCount \<Rightarrow>
          let maxUnavailable = MaxUnavailable deployment;
              minAvailable = replicas - maxUnavailable;
              newMSUnavailableMachineCount = newReplicas - ms_Status_AvailableReplicas newMS;
              maxScaledDown = allMachinesCount - minAvailable - newMSUnavailableMachineCount
          in
            if maxScaledDown \<le>s 0 then (st, Inr oldMSs)
            else
              (case cleanupUnhealthyReplicas st oldMSs deployment maxScaledDown of
                 (st1, Inl err) \<Rightarrow> (st1, Inr [])
               | (st1, Inr (oldMSs1, cleanupCount)) \<Rightarrow>
                   (case scaleDownOldMachineSetsForRollingUpdate MaxUnavailable st1
                           (oldMSs1 @ [newMS]) oldMSs1 deployment of
                      (st2, Inl err) \<Rightarrow> (st2, Inl err)
                    | (st2, Inr (scaledDownCount, oldMSs2)) \<Rightarrow> (st2, Inr oldMSs2)))))))"

section \<open>The scale-up planner\<close>

text \<open>
  \<^verbatim>\<open>reconcileNewMachineSet\<close> (lines 62 to 86). \<^verbatim>\<open>dutil.NewMSNewReplicas\<close> is not among the
  files under verification; it is a parameter.
\<close>

definition reconcileNewMachineSet ::
  "(machine_deployment \<Rightarrow> machine_set list \<Rightarrow> machine_set \<Rightarrow> error + int32) \<Rightarrow> store \<Rightarrow>
   machine_set list \<Rightarrow> machine_set \<Rightarrow> machine_deployment \<Rightarrow> store \<times> (error + machine_set)" where
  "reconcileNewMachineSet NewMSNewReplicas st allMSs newMS deployment =
     (case md_Spec_Replicas deployment of
        None \<Rightarrow> (st, Inl (NilDeploymentReplicas (md_Name deployment)))
      | Some replicas \<Rightarrow>
     (case ms_Spec_Replicas newMS of
        None \<Rightarrow> (st, Inl (NilMachineSetReplicas (ms_Name newMS)))
      | Some newReplicas \<Rightarrow>
          if newReplicas = replicas then (st, Inr newMS)
          else if replicas <s newReplicas then
            (case scaleMachineSet st newMS replicas deployment of
               (st', Inl err) \<Rightarrow> (st', Inl err)
             | (st', Inr (_, newMS')) \<Rightarrow> (st', Inr newMS'))
          else
            (case NewMSNewReplicas deployment allMSs newMS of
               Inl err \<Rightarrow> (st, Inl err)
             | Inr newReplicasCount \<Rightarrow>
                 (case scaleMachineSet st newMS newReplicasCount deployment of
                    (st', Inl err) \<Rightarrow> (st', Inl err)
                  | (st', Inr (_, newMS')) \<Rightarrow> (st', Inr newMS')))))"

section \<open>Status aggregation\<close>

text \<open>The loop of \<^verbatim>\<open>ensureStatus\<close> (status.go, lines 17 to 21).\<close>

fun sumStatus :: "machine_deployment_status \<Rightarrow> machine_set list \<Rightarrow> machine_deployment_status" where
  "sumStatus newStatus [] = newStatus"
| "sumStatus newStatus (ms # rest) =
     sumStatus
       (newStatus\<lparr>Replicas := Replicas newStatus + ms_Status_Replicas ms,
                  ReadyReplicas := ReadyReplicas newStatus + ms_Status_ReadyReplicas ms,
                  AvailableReplicas := AvailableReplicas newStatus + ms_Status_AvailableReplicas ms\<rparr>)
       rest"

text \<open>
  \<^verbatim>\<open>UpdateStatus\<close> of the generated client: a request to the store, which gives the
  object back when it succeeds.
\<close>

definition UpdateStatus :: "store \<Rightarrow> machine_deployment \<Rightarrow> store \<times> (error + machine_deployment)" where
  "UpdateStatus st md =
     (case storeRequest st (StatusUpdate md) of
        (st', ok) \<Rightarrow> if ok then (st', Inr md) else (st', Inl StoreError))"

text \<open>
  \<^verbatim>\<open>ensureStatus\<close> (status.go, lines 11 to 35). The status struct holds scalars only, so
  \<^verbatim>\<open>equality.Semantic.DeepEqual\<close> is equality of the records. Line 23 dereferences
  \<^verbatim>\<open>md.Spec.Replicas\<close> unchecked.
\<close>

definition ensureStatus ::
  "store \<Rightarrow> machine_deployment \<Rightarrow> machine_set \<Rightarrow> machine_set list \<Rightarrow>
   store \<times> (error + machine_deployment)" where
  "ensureStatus st md newMS oldMSs =
     (let newStatus0 = \<lparr>ObservedGeneration = md_Generation md, Replicas = 0,
                        UpdatedReplicas = ms_Status_Replicas newMS, ReadyReplicas = 0,
                        AvailableReplicas = 0, UnavailableReplicas = 0\<rparr>;
          allOwnedMS = oldMSs @ [newMS];
          newStatus1 = sumStatus newStatus0 allOwnedMS
      in
        (case md_Spec_Replicas md of
           None \<Rightarrow> (st, Inl NilDereference)
         | Some replicas \<Rightarrow>
             let unavailable = replicas - AvailableReplicas newStatus1;
                 newStatus = newStatus1\<lparr>UnavailableReplicas :=
                               (if unavailable <s 0 then 0 else unavailable)\<rparr>
             in
               if md_Status md \<noteq> newStatus then UpdateStatus st (md\<lparr>md_Status := newStatus\<rparr>)
               else (st, Inr md)))"

section \<open>The rollout orchestrator\<close>

text \<open>
  The functions that \<^verbatim>\<open>rolloutRolling\<close> calls and that are not among the files under
  verification are its parameters: the revision selector, the two resolvers of
  \<^verbatim>\<open>dutil\<close>, the completeness predicate and the cleanup hook. The type \<open>'m\<close> is that of
  the machine map, which \<^verbatim>\<open>rolloutRolling\<close> only hands on. The selector and the hook
  are taken as functions of their arguments: what they send to the store themselves is
  not part of the trace, and the selector leaves the deployment as it found it. The
  invocation of the hook is recorded in the trace by \<^verbatim>\<open>rolloutRolling\<close>.
\<close>

record 'm collaborators =
  getAllMachineSetsAndSyncRevision ::
    "machine_deployment \<Rightarrow> machine_set list \<Rightarrow> 'm \<Rightarrow> bool \<Rightarrow> error + machine_set \<times> machine_set list"
  NewMSNewReplicas :: "machine_deployment \<Rightarrow> machine_set list \<Rightarrow> machine_set \<Rightarrow> error + int32"
  MaxUnavailable :: "machine_deployment \<Rightarrow> int32"
  DeploymentComplete :: "machine_deployment \<Rightarrow> machine_deployment_status \<Rightarrow> bool"
  cleanupDeployment :: "machine_set list \<Rightarrow> machine_deployment \<Rightarrow> error option"

text \<open>
  The tail of \<^verbatim>\<open>rolloutRolling\<close> (lines 52 to 59): the completeness check on the status
  that the deployment carries, the cleanup hook, then \<^verbatim>\<open>ensureStatus\<close>.
\<close>

definition completeAndSync ::
  "'m collaborators \<Rightarrow> store \<Rightarrow> machine_deployment \<Rightarrow> machine_set \<Rightarrow> machine_set list \<Rightarrow>
   store \<times> error option" where
  "completeAndSync dc st d newMS oldMSs =
     (let sync = (\<lambda>st'. case ensureStatus st' d newMS oldMSs of
                          (st'', Inl err) \<Rightarrow> (st'', Some err)
                        | (st'', Inr _) \<Rightarrow> (st'', None))
      in
        if DeploymentComplete dc d (md_Status d) then
          (let st1 = st\<lparr>trace := trace st @ [CleanupHook oldMSs]\<rparr> in
             case cleanupDeployment dc oldMSs d of
               Some err \<Rightarrow> (st1, Some err)
             | None \<Rightarrow> sync st1)
        else sync st)"

text \<open>\<^verbatim>\<open>rolloutRolling\<close> (lines 33 to 60).\<close>

definition rolloutRolling ::
  "'m collaborators \<Rightarrow> store \<Rightarrow> machine_deployment \<Rightarrow> machine_set list \<Rightarrow> 'm \<Rightarrow>
   store \<times> error option" where
  "rolloutRolling dc st d msList machineMap =
     (case getAllMachineSetsAndSyncRevision dc d msList machineMap True of
        Inl err \<Rightarrow> (st, Some err)
      | Inr (newMS, oldMSs) \<Rightarrow>
          let allMSs = oldMSs @ [newMS] in
          (case reconcileNewMachineSet (NewMSNewReplicas dc) st allMSs newMS d of
             (st1, Inl err) \<Rightarrow> (st1, Some err)
           | (st1, Inr newMS1) \<Rightarrow>
               (case reconcileOldMachineSets (MaxUnavailable dc) st1 allMSs oldMSs newMS1 d of
                  (st2, Inl err) \<Rightarrow> (st2, Some err)
                | (st2, Inr oldMSs2) \<Rightarrow> completeAndSync dc st2 d newMS1 oldMSs2)))"

section \<open>Validation of the rolling-update strategy\<close>

text \<open>
  \<^verbatim>\<open>intstr.IntOrString\<close> of k8s.io/apimachinery, as the struct it is (\<open>Int\<close> is
  taken in HOL, hence the prefix of the two type tags), with its two constructors
  \<^verbatim>\<open>intstr.FromInt\<close> and \<^verbatim>\<open>intstr.FromString\<close>.
\<close>

datatype intstr_Type = intstr_Int | intstr_String

record int_or_string =
  Type :: intstr_Type
  IntVal :: int32
  StrVal :: string

definition FromInt :: "int32 \<Rightarrow> int_or_string" where
  "FromInt n = \<lparr>Type = intstr_Int, IntVal = n, StrVal = []\<rparr>"

definition FromString :: "string \<Rightarrow> int_or_string" where
  "FromString s = \<lparr>Type = intstr_String, IntVal = 0, StrVal = s\<rparr>"

record machine_rolling_update_deployment =
  ru_MaxUnavailable :: "int_or_string option"
  ru_MaxSurge :: "int_or_string option"

text \<open>
  The validator calls two functions of external libraries, which are not among the files
  under verification: \<^verbatim>\<open>intstr.GetValueFromIntOrPercent\<close> and
  \<^verbatim>\<open>utilvalidation.IsValidPercent\<close> of k8s.io/apimachinery. They are transcribed here
  from the library, with \<^verbatim>\<open>strconv.Atoi\<close> of the Go standard library, which the first
  one calls.

  \<^verbatim>\<open>strconv.Atoi\<close> reads an optional sign and then decimal digits, at least one, and
  nothing else; the number has to fit the 64-bit \<^verbatim>\<open>int\<close>. \<open>None\<close> is its error.
\<close>

definition isDigit :: "char \<Rightarrow> bool" where
  "isDigit c = (48 \<le> (of_char c :: nat) \<and> (of_char c :: nat) \<le> 57)"

fun parseDigits :: "int \<Rightarrow> string \<Rightarrow> int option" where
  "parseDigits n [] = Some n"
| "parseDigits n (ch # rest) =
     (if isDigit ch then parseDigits (n * 10 + (int (of_char ch) - 48)) rest else None)"

definition Atoi :: "string \<Rightarrow> int option" where
  "Atoi s =
     (let (neg, ds) = (case s of
                         [] \<Rightarrow> (False, [])
                       | c # cs \<Rightarrow> if c = CHR ''-'' then (True, cs)
                                   else if c = CHR ''+'' then (False, cs) else (False, s))
      in
        if ds = [] then None
        else (case parseDigits 0 ds of
                None \<Rightarrow> None
              | Some n \<Rightarrow>
                  let v = (if neg then - n else n) in
                  if - (2 ^ 63) \<le> v \<and> v < 2 ^ 63 then Some v else None))"

text \<open>
  \<^verbatim>\<open>getIntOrPercentValue\<close> of the library: an integer is taken as it is; of a string,
  every percent sign is removed (\<^verbatim>\<open>strings.Replace(intOrStr.StrVal, "%", "", -1)\<close>), what
  is left is read by \<^verbatim>\<open>strconv.Atoi\<close>, and the result counts as a percentage, whether
  the string had a percent sign or not. The result is the value, whether it is a
  percentage, and the error.
\<close>

definition getIntOrPercentValue :: "int_or_string \<Rightarrow> int \<times> bool \<times> string option" where
  "getIntOrPercentValue intOrStr =
     (case Type intOrStr of
        intstr_Int \<Rightarrow> (sint (IntVal intOrStr), False, None)
      | intstr_String \<Rightarrow>
          (case Atoi (filter (\<lambda>c. c \<noteq> CHR ''%'') (StrVal intOrStr)) of
             None \<Rightarrow> (0, False, Some ''invalid value'')
           | Some v \<Rightarrow> (v, True, None)))"

text \<open>
  \<^verbatim>\<open>GetValueFromIntOrPercent\<close> of the library: a percentage is taken of \<^verbatim>\<open>total\<close> and
  rounded up or down. The library computes
  \<^verbatim>\<open>math.Ceil(float64(value) * float64(total) / 100)\<close>, or \<^verbatim>\<open>math.Floor\<close> of it, in
  floating point; here it is computed in the integers, which gives the same number as
  long as \<^verbatim>\<open>value * total\<close> is below \<open>2 ^ 53\<close>. The callers in this file pass a
  pointer that is not nil.
\<close>

definition GetValueFromIntOrPercent :: "int_or_string \<Rightarrow> int \<Rightarrow> bool \<Rightarrow> int \<times> string option" where
  "GetValueFromIntOrPercent intOrPercent total' roundUp =
     (case getIntOrPercentValue intOrPercent of
        (v, isPercent, Some err) \<Rightarrow> (0, Some (''invalid value for IntOrString: '' @ err))
      | (v, isPercent, None) \<Rightarrow>
          if isPercent then
            (if roundUp then (- ((- (v * total')) div 100), None)
             else ((v * total') div 100, None))
          else (v, None))"

text \<open>
  \<^verbatim>\<open>IsValidPercent\<close> of the library: the string has to match the regular expression
  \<^verbatim>\<open>^[0-9]+%$\<close>; the result is the list of complaints.
\<close>

definition IsValidPercent :: "string \<Rightarrow> string list" where
  "IsValidPercent percent =
     (case rev percent of
        [] \<Rightarrow> [''a valid percent string must be a numeric string followed by an ending percent sign'']
      | c # ds \<Rightarrow>
          if c = CHR ''%'' \<and> ds \<noteq> [] \<and> list_all isDigit ds then []
          else [''a valid percent string must be a numeric string followed by an ending percent sign''])"

text \<open>
  The validator itself, of the package \<^verbatim>\<open>mutating\<close> (lines 64 to 104). An error
  of \<^verbatim>\<open>field.Invalid\<close> holds the path of the field, the offending value and a message.
\<close>

datatype bad_value = StringValue string | IntValue int | IntOrStringValue int_or_string

datatype field_error = Invalid "string list" bad_value string

definition getIntOrPercent :: "int_or_string \<Rightarrow> bool \<Rightarrow> int \<times> string option" where
  "getIntOrPercent s roundUp = GetValueFromIntOrPercent s 100 roundUp"

definition ValidatePositiveIntOrPercent ::
  "int_or_string \<Rightarrow> string list \<Rightarrow> field_error list" where
  "ValidatePositiveIntOrPercent s fldPath =
     (case getIntOrPercent s False of
        (x, Some err) \<Rightarrow>
          [Invalid fldPath (StringValue (StrVal s)) ''value should be int(5) or percentage(5%)'']
      | (x, None) \<Rightarrow>
          if x < 0 then [Invalid fldPath (IntValue x) ''value should not be negative'']
          else [])"

definition ValidateMachineRollingUpdateDeployment ::
  "machine_rolling_update_deployment \<Rightarrow> string list \<Rightarrow> field_error list" where
  "ValidateMachineRollingUpdateDeployment rollingUpdate fldPath =
     (let (allErrs1, maxUnavailable) =
            (case ru_MaxUnavailable rollingUpdate of
               None \<Rightarrow> ([], 0)
             | Some mu \<Rightarrow>
                 let errs = ValidatePositiveIntOrPercent mu (fldPath @ [''maxUnavailable'']);
                     v = fst (getIntOrPercent mu False)
                 in
                   if length (IsValidPercent (StrVal mu)) = 0 \<and> 100 < v then
                     (errs @ [Invalid (fldPath @ [''maxUnavailable'']) (IntOrStringValue mu)
                                ''should not be more than 100%''], v)
                   else (errs, v));
          (allErrs2, maxSurge) =
            (case ru_MaxSurge rollingUpdate of
               None \<Rightarrow> (allErrs1, 0)
             | Some ms \<Rightarrow>
                 (allErrs1 @ ValidatePositiveIntOrPercent ms (fldPath @ [''maxSurge'']),
                  fst (getIntOrPercent ms True)))
      in
        (case (ru_MaxUnavailable rollingUpdate, ru_MaxSurge rollingUpdate) of
           (Some mu, Some ms) \<Rightarrow>
             if maxUnavailable = 0 \<and> maxSurge = 0 then
               allErrs2 @ [Invalid (fldPath @ [''maxUnavailable'']) (IntOrStringValue mu)
                             ''may not be 0 when `maxSurge` is 0'']
             else allErrs2
         | _ \<Rightarrow> allErrs2))"

section \<open>Notions of the specification\<close>

text \<open>
  \<^verbatim>\<open>totalReplicas(sets)\<close> of section 4.1 as a plain sum in \<^verbatim>\<open>int32\<close>; it is the value
  of \<open>GetReplicaCountForMachineSets\<close> on sets whose replica counts are all present.
\<close>

definition totalReplicas :: "machine_set list \<Rightarrow> int32" where
  "totalReplicas mss =
     sum_list (map (\<lambda>ms. case ms_Spec_Replicas ms of Some r \<Rightarrow> r | None \<Rightarrow> 0) mss)"

text \<open>
  The availability-gated scale-down as the specification words it (section 4.4, phase B):
  go through the old sets in order; each one with \<^verbatim>\<open>spec.replicas > 0\<close> is reduced by the
  smaller of its replicas and the remaining quota, which is decremented by that amount;
  stop when the quota is exhausted. The result is the list of sets and the total
  reduction.
\<close>

fun drainOldSets :: "int32 \<Rightarrow> machine_set list \<Rightarrow> machine_set list \<times> int32" where
  "drainOldSets quota [] = ([], 0)"
| "drainOldSets quota (ms # rest) =
     (if quota \<le>s 0 then (ms # rest, 0)
      else
        (case ms_Spec_Replicas ms of
           Some r \<Rightarrow>
             if 0 <s r then
               (let delta = Int32Min r quota;
                    (rest', n) = drainOldSets (quota - delta) rest
                in (ms\<lparr>ms_Spec_Replicas := Some (r - delta)\<rparr> # rest', delta + n))
             else (let (rest', n) = drainOldSets quota rest in (ms # rest', n))
         | None \<Rightarrow> (let (rest', n) = drainOldSets quota rest in (ms # rest', n))))"

text \<open>
  The unhealthy cleanup as the specification words it (section 4.4, phase A): go through
  the old sets in order; each one with \<^verbatim>\<open>spec.replicas > status.availableReplicas\<close> and
  \<^verbatim>\<open>spec.replicas > 0\<close> is reduced by the smaller of the remaining budget and
  \<^verbatim>\<open>spec.replicas - status.availableReplicas\<close>; the other sets are skipped; nothing is
  left to do once the budget is used up.
\<close>

fun cleanOldSets :: "int32 \<Rightarrow> machine_set list \<Rightarrow> machine_set list \<times> int32" where
  "cleanOldSets budget [] = ([], 0)"
| "cleanOldSets budget (ms # rest) =
     (if budget \<le>s 0 then (ms # rest, 0)
      else
        (case ms_Spec_Replicas ms of
           Some r \<Rightarrow>
             if ms_Status_AvailableReplicas ms <s r \<and> 0 <s r then
               (let cleaned = Int32Min budget (r - ms_Status_AvailableReplicas ms);
                    (rest', n) = cleanOldSets (budget - cleaned) rest
                in (ms\<lparr>ms_Spec_Replicas := Some (r - cleaned)\<rparr> # rest', cleaned + n))
             else (let (rest', n) = cleanOldSets budget rest in (ms # rest', n))
         | None \<Rightarrow> (let (rest', n) = cleanOldSets budget rest in (ms # rest', n))))"

text \<open>
  The replicas of a set as an unbounded integer, and the total reduction between a list
  of sets and the list that a planner returns for it, without wrap-around.
\<close>

definition replicasInt :: "machine_set \<Rightarrow> int" where
  "replicasInt ms = (case ms_Spec_Replicas ms of Some r \<Rightarrow> sint r | None \<Rightarrow> 0)"

definition reductionApplied :: "machine_set list \<Rightarrow> machine_set list \<Rightarrow> int" where
  "reductionApplied before after =
     sum_list (map2 (\<lambda>b a. replicasInt b - replicasInt a) before after)"

text \<open>
  The requests that turn one list of sets into the other: one for each set whose replica
  count differs, in the order of the list.
\<close>

definition scaleRequests :: "machine_set list \<Rightarrow> machine_set list \<Rightarrow> event list" where
  "scaleRequests before after =
     concat (map2 (\<lambda>b a. case ms_Spec_Replicas a of
                            Some k \<Rightarrow> if ms_Spec_Replicas b = Some k then [] else [ScaleRequest b k]
                          | None \<Rightarrow> []) before after)"

text \<open>
  A request that sets the replicas of a set to a count not above the one it has.
\<close>

definition reducingRequest :: "event \<Rightarrow> bool" where
  "reducingRequest ev =
     (case ev of
        ScaleRequest ms n \<Rightarrow> (case ms_Spec_Replicas ms of Some r \<Rightarrow> n \<le>s r | None \<Rightarrow> False)
      | _ \<Rightarrow> False)"

text \<open>A request that sets the replicas of a set to a count strictly below the one it has.\<close>

definition loweringRequest :: "event \<Rightarrow> bool" where
  "loweringRequest ev =
     (case ev of
        ScaleRequest ms n \<Rightarrow> (case ms_Spec_Replicas ms of Some r \<Rightarrow> n <s r | None \<Rightarrow> False)
      | _ \<Rightarrow> False)"

text \<open>A request that sets the replicas of a set, whatever the count.\<close>

definition isScaleRequest :: "event \<Rightarrow> bool" where
  "isScaleRequest ev = (case ev of ScaleRequest ms n \<Rightarrow> True | _ \<Rightarrow> False)"

text \<open>
  The old sets as the store has them while the planner runs. The sets are told apart by
  their place in the list: the planner holds them in one slice, in creation order, and
  writes each updated set back to the place of the set it updated. \<open>replay sets fs js evs\<close>
  goes through the requests \<open>evs\<close>, each addressed to the place that \<open>js\<close> gives for
  it. The record that a request carries has to be the set at that place as it is at that
  moment, all earlier requests taken into account, and the count that the request asks
  for must not be above the count of that record. A request that the store accepts
  changes the set at its place; a request that the store refuses (\<open>fs\<close> are the faults of
  the store, as in \<open>storeRequest\<close>) leaves the sets as they are. The result is the list
  of the sets after the last request, and \<open>None\<close> as soon as one request is not of
  that kind.
\<close>

fun replay ::
  "machine_set list \<Rightarrow> bool list \<Rightarrow> nat list \<Rightarrow> event list \<Rightarrow> machine_set list option" where
  "replay sets fs [] [] = Some sets"
| "replay sets fs (j # js) (ScaleRequest ms n # evs) =
     (if j < length sets \<and> sets ! j = ms \<and> reducingRequest (ScaleRequest ms n) then
        replay (if fs \<noteq> [] \<and> hd fs then sets else sets[j := ms\<lparr>ms_Spec_Replicas := Some n\<rparr>])
          (tl fs) js evs
      else None)"
| "replay sets fs js evs = None"

text \<open>
  The values of \<^verbatim>\<open>maxSurge\<close> and \<^verbatim>\<open>maxUnavailable\<close> as the specification has them
  (section 3): an absolute integer, or a percentage string of the form \<^verbatim>\<open>N%\<close>, that is,
  decimal digits, at least one, and then a percent sign. A value is malformed when it is
  neither an integer nor a string of that form. \<open>percentValue\<close> is the number \<open>N\<close> of
  a string \<^verbatim>\<open>N%\<close>, and \<open>wordedValue\<close> the number that a value resolves to against a
  total of 100: an integer is taken as it is, and \<open>N\<close> percent of 100 are \<open>N\<close>.
\<close>

definition percentString :: "string \<Rightarrow> bool" where
  "percentString s =
     (s \<noteq> [] \<and> last s = CHR ''%'' \<and> butlast s \<noteq> [] \<and> list_all isDigit (butlast s))"

definition malformed :: "int_or_string \<Rightarrow> bool" where
  "malformed v = (Type v = intstr_String \<and> \<not> percentString (StrVal v))"

definition percentValue :: "string \<Rightarrow> int" where
  "percentValue s = foldl (\<lambda>n c. n * 10 + (int (of_char c) - 48)) 0 (butlast s)"

definition wordedValue :: "int_or_string \<Rightarrow> int" where
  "wordedValue v =
     (case Type v of
        intstr_Int \<Rightarrow> sint (IntVal v)
      | intstr_String \<Rightarrow> percentValue (StrVal v))"

text \<open>
  What the specification has the validator reject (section 6): two values that are both
  present and both resolve to zero; a value that is present and is negative or malformed;
  a \<^verbatim>\<open>maxUnavailable\<close> that is a percentage above 100.
\<close>

definition present :: "(int_or_string \<Rightarrow> bool) \<Rightarrow> int_or_string option \<Rightarrow> bool" where
  "present P entry = (case entry of None \<Rightarrow> False | Some v \<Rightarrow> P v)"

definition rejectedAsWorded :: "machine_rolling_update_deployment \<Rightarrow> bool" where
  "rejectedAsWorded rollingUpdate =
     ((case (ru_MaxUnavailable rollingUpdate, ru_MaxSurge rollingUpdate) of
         (Some mu, Some ms) \<Rightarrow> wordedValue mu = 0 \<and> wordedValue ms = 0
       | _ \<Rightarrow> False) \<or>
      present (\<lambda>v. malformed v \<or> wordedValue v < 0) (ru_MaxUnavailable rollingUpdate) \<or>
      present (\<lambda>v. malformed v \<or> wordedValue v < 0) (ru_MaxSurge rollingUpdate) \<or>
      present (\<lambda>v. Type v = intstr_String \<and> percentString (StrVal v) \<and> 100 < wordedValue v)
        (ru_MaxUnavailable rollingUpdate))"

text \<open>
  A well-formed value: an integer as \<^verbatim>\<open>intstr.FromInt\<close> builds it, with no string beside
  it, or a string of the form \<^verbatim>\<open>N%\<close> whose number is in the range in which the
  floating-point scaling of the library is exact.
\<close>

definition wellFormed :: "int_or_string \<Rightarrow> bool" where
  "wellFormed v =
     (case Type v of
        intstr_Int \<Rightarrow> StrVal v = []
      | intstr_String \<Rightarrow> percentString (StrVal v) \<and> percentValue (StrVal v) * 100 < 2 ^ 53)"

section \<open>Collaborators for the scenarios\<close>

text \<open>
  Modelled from the spec: \<^verbatim>\<open>dutil.DeploymentComplete\<close> is not among the files under
  verification. Section 4.6, step 6: \<^verbatim>\<open>updatedReplicas == d.replicas\<close> and
  \<^verbatim>\<open>available == d.replicas\<close> and \<^verbatim>\<open>observedGeneration >= d.generation\<close>. The condition
  of the specification on the old sets is out of reach of a predicate that is handed the
  deployment and its status only, as the call in \<^verbatim>\<open>rolloutRolling\<close> does.
\<close>

definition specDeploymentComplete :: "machine_deployment \<Rightarrow> machine_deployment_status \<Rightarrow> bool" where
  "specDeploymentComplete d status =
     (case md_Spec_Replicas d of
        None \<Rightarrow> False
      | Some replicas \<Rightarrow>
          UpdatedReplicas status = replicas \<and> AvailableReplicas status = replicas \<and>
          md_Generation d \<le>s ObservedGeneration status)"

text \<open>
  Collaborators of a controller whose revision selector finds the given new set and old
  sets, with no unavailability allowed, and whose cleanup hook succeeds.
\<close>

definition settledController :: "machine_set \<Rightarrow> machine_set list \<Rightarrow> unit collaborators" where
  "settledController newMS oldMSs =
     \<lparr>getAllMachineSetsAndSyncRevision = (\<lambda>d msList machineMap createIfNotExisted. Inr (newMS, oldMSs)),
      NewMSNewReplicas = (\<lambda>d allMSs newMS. Inl (CollaboratorError ''not needed'')),
      MaxUnavailable = (\<lambda>d. 0),
      DeploymentComplete = specDeploymentComplete,
      cleanupDeployment = (\<lambda>oldMSs d. None)\<rparr>"

section \<open>Concrete scenarios\<close>

definition quietStore :: store where
  "quietStore = \<lparr>trace = [], faults = []\<rparr>"

definition emptyStatus :: machine_deployment_status where
  "emptyStatus = \<lparr>ObservedGeneration = 0, Replicas = 0, UpdatedReplicas = 0, ReadyReplicas = 0,
                   AvailableReplicas = 0, UnavailableReplicas = 0\<rparr>"

text \<open>
  Seed scenario 3 of the specification: three replicas wanted, none may be unavailable;
  the old set \<open>A\<close> has three replicas, all available, the new set \<open>B\<close> has one, available.
\<close>

definition scenario3_d :: machine_deployment where
  "scenario3_d = \<lparr>md_Name = ''d'', md_Generation = 1, md_Spec_Replicas = Some 3,
                   md_Status = emptyStatus\<rparr>"

definition scenario3_A :: machine_set where
  "scenario3_A = \<lparr>ms_Name = ''A'', ms_CreationTimestamp = 1, ms_Spec_Replicas = Some 3,
                   ms_Status_Replicas = 3, ms_Status_ReadyReplicas = 3,
                   ms_Status_AvailableReplicas = 3\<rparr>"

definition scenario3_B :: machine_set where
  "scenario3_B = \<lparr>ms_Name = ''B'', ms_CreationTimestamp = 2, ms_Spec_Replicas = Some 1,
                   ms_Status_Replicas = 1, ms_Status_ReadyReplicas = 1,
                   ms_Status_AvailableReplicas = 1\<rparr>"

text \<open>
  Seed scenario 4: ten replicas wanted, at most two unavailable; the set \<open>A\<close> has eight
  replicas of which six are available, the set \<open>B\<close> has five replicas and none
  available.
\<close>

definition scenario4_d :: machine_deployment where
  "scenario4_d = \<lparr>md_Name = ''d'', md_Generation = 1, md_Spec_Replicas = Some 10,
                   md_Status = emptyStatus\<rparr>"

definition scenario4_A :: machine_set where
  "scenario4_A = \<lparr>ms_Name = ''A'', ms_CreationTimestamp = 1, ms_Spec_Replicas = Some 8,
                   ms_Status_Replicas = 8, ms_Status_ReadyReplicas = 6,
                   ms_Status_AvailableReplicas = 6\<rparr>"

definition scenario4_B :: machine_set where
  "scenario4_B = \<lparr>ms_Name = ''B'', ms_CreationTimestamp = 2, ms_Spec_Replicas = Some 5,
                   ms_Status_Replicas = 5, ms_Status_ReadyReplicas = 0,
                   ms_Status_AvailableReplicas = 0\<rparr>"

text \<open>
  A set whose status lags behind its specification: two replicas wanted, three still
  available. The new set \<open>full_B\<close> is complete.
\<close>

definition lagging_A :: machine_set where
  "lagging_A = \<lparr>ms_Name = ''A'', ms_CreationTimestamp = 1, ms_Spec_Replicas = Some 2,
                 ms_Status_Replicas = 3, ms_Status_ReadyReplicas = 3,
                 ms_Status_AvailableReplicas = 3\<rparr>"

definition full_B :: machine_set where
  "full_B = \<lparr>ms_Name = ''B'', ms_CreationTimestamp = 2, ms_Spec_Replicas = Some 10,
              ms_Status_Replicas = 10, ms_Status_ReadyReplicas = 10,
              ms_Status_AvailableReplicas = 10\<rparr>"

text \<open>Seed scenario 5: two replicas wanted, the new set has three.\<close>

definition scenario5_d :: machine_deployment where
  "scenario5_d = \<lparr>md_Name = ''d'', md_Generation = 1, md_Spec_Replicas = Some 2,
                   md_Status = emptyStatus\<rparr>"

definition scenario5_N :: machine_set where
  "scenario5_N = \<lparr>ms_Name = ''N'', ms_CreationTimestamp = 1, ms_Spec_Replicas = Some 3,
                   ms_Status_Replicas = 3, ms_Status_ReadyReplicas = 3,
                   ms_Status_AvailableReplicas = 3\<rparr>"

text \<open>A set without a replica count, older than the sets of scenario 3.\<close>

definition nil_N :: machine_set where
  "nil_N = \<lparr>ms_Name = ''N'', ms_CreationTimestamp = 0, ms_Spec_Replicas = None,
             ms_Status_Replicas = 0, ms_Status_ReadyReplicas = 0,
             ms_Status_AvailableReplicas = 0\<rparr>"

text \<open>A set with a negative replica count, and a deployment that wants one replica.\<close>

definition negative_A :: machine_set where
  "negative_A = \<lparr>ms_Name = ''A'', ms_CreationTimestamp = 1, ms_Spec_Replicas = Some (- 1),
                  ms_Status_Replicas = 2, ms_Status_ReadyReplicas = 2,
                  ms_Status_AvailableReplicas = 2\<rparr>"

definition one_d :: machine_deployment where
  "one_d = \<lparr>md_Name = ''d'', md_Generation = 1, md_Spec_Replicas = Some 1,
             md_Status = emptyStatus\<rparr>"

text \<open>
  Two sets with no more replicas available than wanted; for the first one, the
  difference of the two counts does not fit \<^verbatim>\<open>int32\<close>.
\<close>

definition wrap_X :: machine_set where
  "wrap_X = \<lparr>ms_Name = ''X'', ms_CreationTimestamp = 1, ms_Spec_Replicas = Some 1,
              ms_Status_Replicas = 1, ms_Status_ReadyReplicas = 0,
              ms_Status_AvailableReplicas = - 2147483648\<rparr>"

definition wrap_Y :: machine_set where
  "wrap_Y = \<lparr>ms_Name = ''Y'', ms_CreationTimestamp = 2, ms_Spec_Replicas = Some 5,
              ms_Status_Replicas = 5, ms_Status_ReadyReplicas = 0,
              ms_Status_AvailableReplicas = 0\<rparr>"

text \<open>
  A deployment whose status says that it is complete, and its only set, which has lost
  one of its two available replicas since that status was written.
\<close>

definition stale_d :: machine_deployment where
  "stale_d = \<lparr>md_Name = ''d'', md_Generation = 1, md_Spec_Replicas = Some 2,
               md_Status = \<lparr>ObservedGeneration = 1, Replicas = 2, UpdatedReplicas = 2,
                             ReadyReplicas = 2, AvailableReplicas = 2, UnavailableReplicas = 0\<rparr>\<rparr>"

definition degraded_N :: machine_set where
  "degraded_N = \<lparr>ms_Name = ''N'', ms_CreationTimestamp = 1, ms_Spec_Replicas = Some 2,
                  ms_Status_Replicas = 2, ms_Status_ReadyReplicas = 1,
                  ms_Status_AvailableReplicas = 1\<rparr>"

definition degradedStatus :: machine_deployment_status where
  "degradedStatus = \<lparr>ObservedGeneration = 1, Replicas = 2, UpdatedReplicas = 2,
                      ReadyReplicas = 1, AvailableReplicas = 1, UnavailableReplicas = 1\<rparr>"

text \<open>
  A set that both phases of the scale-down planner reduce: three replicas wanted, at
  most one unavailable; the old set \<open>A\<close> has four replicas of which two are available,
  the new set \<open>N\<close> has three replicas of which one is available.
\<close>

definition twice_d :: machine_deployment where
  "twice_d = \<lparr>md_Name = ''d'', md_Generation = 1, md_Spec_Replicas = Some 3,
               md_Status = emptyStatus\<rparr>"

definition twice_A :: machine_set where
  "twice_A = \<lparr>ms_Name = ''A'', ms_CreationTimestamp = 1, ms_Spec_Replicas = Some 4,
               ms_Status_Replicas = 4, ms_Status_ReadyReplicas = 2,
               ms_Status_AvailableReplicas = 2\<rparr>"

definition twice_N :: machine_set where
  "twice_N = \<lparr>ms_Name = ''N'', ms_CreationTimestamp = 2, ms_Spec_Replicas = Some 3,
               ms_Status_Replicas = 3, ms_Status_ReadyReplicas = 1,
               ms_Status_AvailableReplicas = 1\<rparr>"

section \<open>Facts about the store and the primitives\<close>

lemma storeRequest_trace: "storeRequest st ev = (st', ok) \<Longrightarrow> trace st' = trace st @ [ev]"
  by (auto simp: storeRequest_def split: list.splits)

lemma storeRequest_no_faults:
  "faults st = [] \<Longrightarrow> storeRequest st ev = (st\<lparr>trace := trace st @ [ev]\<rparr>, True)"
  by (simp add: storeRequest_def)

lemma GetReplicaCount_total:
  "\<forall>ms\<in>set mss. ms_Spec_Replicas ms \<noteq> None \<Longrightarrow>
   GetReplicaCountForMachineSets mss = Inr (totalReplicas mss)"
  by (induction mss) (auto simp: totalReplicas_def)

lemma sumStatus_sums:
  "sumStatus ns mss =
     ns\<lparr>Replicas := Replicas ns + sum_list (map ms_Status_Replicas mss),
        ReadyReplicas := ReadyReplicas ns + sum_list (map ms_Status_ReadyReplicas mss),
        AvailableReplicas :=
          AvailableReplicas ns + sum_list (map ms_Status_AvailableReplicas mss)\<rparr>"
  by (induction mss arbitrary: ns) (simp_all add: add.assoc)

section \<open>The scale-down planner leaves the sets alone without a budget\<close>

text \<open>
  Claim C1. Let the deployment, the new set and all the sets handed to
  \<open>reconcileOldMachineSets\<close> have replica counts. When the old sets total zero replicas,
  or when the budget \<open>totalReplicas allMSs - (replicas - maxUnavailable) -
  (newReplicas - available of the new set)\<close>, computed in \<^verbatim>\<open>int32\<close>, is not positive,
  the planner returns the old sets as they are, with no error and with the store
  untouched: no request is issued.
\<close>

theorem reconcileOldMachineSets_no_budget:
  assumes "md_Spec_Replicas d = Some replicas"
    and "ms_Spec_Replicas newMS = Some newReplicas"
    and "\<forall>ms\<in>set oldMSs. ms_Spec_Replicas ms \<noteq> None"
    and "\<forall>ms\<in>set allMSs. ms_Spec_Replicas ms \<noteq> None"
  shows "(totalReplicas oldMSs = 0 \<or>
          totalReplicas allMSs - (replicas - maxUnavail d)
            - (newReplicas - ms_Status_AvailableReplicas newMS) \<le>s 0)
         \<longrightarrow> reconcileOldMachineSets maxUnavail st allMSs oldMSs newMS d = (st, Inr oldMSs)"
  using assms by (simp add: reconcileOldMachineSets_def GetReplicaCount_total)

theorem reconcileOldMachineSets_no_budget_witness:
  "reconcileOldMachineSets (\<lambda>_. 2) quietStore [scenario4_A, scenario4_B] [scenario4_A]
     scenario4_B scenario4_d = (quietStore, Inr [scenario4_A])"
  using reconcileOldMachineSets_no_budget
    [of scenario4_d 10 scenario4_B 5 "[scenario4_A]" "[scenario4_A, scenario4_B]" "\<lambda>_. 2"
      quietStore]
  by (simp add: scenario4_d_def scenario4_A_def scenario4_B_def totalReplicas_def word_sle_eq)

section \<open>An error of the unhealthy cleanup is swallowed\<close>

text \<open>
  Claim C5. Whenever \<open>reconcileOldMachineSets\<close> reaches the unhealthy cleanup (the
  replica counts are present, the old sets do not total zero replicas and the budget is
  positive) and \<open>cleanupUnhealthyReplicas\<close> returns an error, \<open>reconcileOldMachineSets\<close>
  returns no error: its result is the nil slice that the cleanup gave back, in the state
  the cleanup left. A tick of \<open>rolloutRolling\<close> in which this happens does not end with
  that error: it goes on to the completeness check and the status phase, with no old
  sets.
\<close>

theorem reconcileOldMachineSets_swallows_cleanup_error:
  assumes "md_Spec_Replicas d = Some replicas"
    and "ms_Spec_Replicas newMS = Some newReplicas"
    and "GetReplicaCountForMachineSets oldMSs = Inr oldMachinesCount"
    and "oldMachinesCount \<noteq> 0"
    and "GetReplicaCountForMachineSets allMSs = Inr allMachinesCount"
    and "maxScaledDown = allMachinesCount - (replicas - maxUnavail d)
                           - (newReplicas - ms_Status_AvailableReplicas newMS)"
    and "0 <s maxScaledDown"
    and "cleanupUnhealthyReplicas st oldMSs d maxScaledDown = (st1, Inl err)"
  shows "reconcileOldMachineSets maxUnavail st allMSs oldMSs newMS d = (st1, Inr []) \<and>
    (\<forall>dc st0 msList machineMap newMS0.
        getAllMachineSetsAndSyncRevision dc d msList machineMap True = Inr (newMS0, oldMSs) \<and>
        allMSs = oldMSs @ [newMS0] \<and> MaxUnavailable dc = maxUnavail \<and>
        reconcileNewMachineSet (NewMSNewReplicas dc) st0 allMSs newMS0 d = (st, Inr newMS) \<longrightarrow>
        rolloutRolling dc st0 d msList machineMap = completeAndSync dc st1 d newMS [])"
proof -
  have "\<not> maxScaledDown \<le>s 0"
    using assms(7) by (simp add: word_sle_eq word_sless_alt)
  with assms have old: "reconcileOldMachineSets maxUnavail st allMSs oldMSs newMS d = (st1, Inr [])"
    by (simp add: reconcileOldMachineSets_def Let_def)
  then show ?thesis
    by (auto simp: rolloutRolling_def)
qed

text \<open>
  The lagging set: the cleanup fails on it with the error of line 195, and the planner
  returns the nil slice with no error.
\<close>

theorem reconcileOldMachineSets_swallows_cleanup_error_witness:
  "cleanupUnhealthyReplicas quietStore [lagging_A] scenario4_d 4 =
     (quietStore, Inl (InvalidCleanup ''A'' 2 3)) \<and>
   reconcileOldMachineSets (\<lambda>_. 2) quietStore [lagging_A, full_B] [lagging_A] full_B scenario4_d =
     (quietStore, Inr [])"
proof -
  have c: "cleanupUnhealthyReplicas quietStore [lagging_A] scenario4_d 4 =
             (quietStore, Inl (InvalidCleanup ''A'' 2 3))"
    by (simp add: cleanupUnhealthyReplicas_def sortByCreationTimestamp_def lagging_A_def
        Int32Min_def word_sle_eq word_sless_alt Let_def)
  have d: "md_Spec_Replicas scenario4_d = Some 10"
    by (simp add: scenario4_d_def)
  have n: "ms_Spec_Replicas full_B = Some 10"
    by (simp add: full_B_def)
  have old: "GetReplicaCountForMachineSets [lagging_A] = Inr 2"
    by (simp add: lagging_A_def)
  have all: "GetReplicaCountForMachineSets [lagging_A, full_B] = Inr 12"
    by (simp add: lagging_A_def full_B_def)
  have budget: "(4::int32) = 12 - (10 - (\<lambda>_. 2) scenario4_d)
                   - (10 - ms_Status_AvailableReplicas full_B)"
    by (simp add: full_B_def)
  have ne: "(2::int32) \<noteq> 0" by simp
  have pos: "0 <s (4::int32)" by (simp add: word_sless_alt)
  from reconcileOldMachineSets_swallows_cleanup_error [OF d n old ne all budget pos c]
  have "reconcileOldMachineSets (\<lambda>_. 2) quietStore [lagging_A, full_B] [lagging_A] full_B
          scenario4_d = (quietStore, Inr [])"
    by (rule conjunct1)
  with c show ?thesis by simp
qed

section \<open>The scale-up planner on a new set that is at or above the target\<close>

text \<open>
  Claim C6. Let the deployment and the new set have replica counts. When the two counts
  are equal, \<open>reconcileNewMachineSet\<close> returns the new set as it is and issues no
  request. When the new set has more replicas than the deployment wants, it issues exactly
  one request, which sets the new set to the deployment's count; unless the store refuses
  the request, the result is the new set with exactly that count.
\<close>

theorem reconcileNewMachineSet_equal_or_above:
  assumes "md_Spec_Replicas d = Some replicas"
    and "ms_Spec_Replicas newMS = Some newReplicas"
  shows "(newReplicas = replicas \<longrightarrow>
            reconcileNewMachineSet newMSNewReplicas st allMSs newMS d = (st, Inr newMS)) \<and>
         (replicas <s newReplicas \<longrightarrow>
            trace (fst (reconcileNewMachineSet newMSNewReplicas st allMSs newMS d)) =
              trace st @ [ScaleRequest newMS replicas] \<and>
            (snd (reconcileNewMachineSet newMSNewReplicas st allMSs newMS d) =
               Inr (newMS\<lparr>ms_Spec_Replicas := Some replicas\<rparr>) \<or>
             snd (reconcileNewMachineSet newMSNewReplicas st allMSs newMS d) = Inl StoreError) \<and>
            (faults st = [] \<longrightarrow>
               snd (reconcileNewMachineSet newMSNewReplicas st allMSs newMS d) =
                 Inr (newMS\<lparr>ms_Spec_Replicas := Some replicas\<rparr>)))"
proof (intro conjI impI)
  assume "newReplicas = replicas"
  with assms show "reconcileNewMachineSet newMSNewReplicas st allMSs newMS d = (st, Inr newMS)"
    by (simp add: reconcileNewMachineSet_def)
next
  assume lt: "replicas <s newReplicas"
  then have ne: "newReplicas \<noteq> replicas" by auto
  obtain st' ok where sr: "storeRequest st (ScaleRequest newMS replicas) = (st', ok)"
    by (cases "storeRequest st (ScaleRequest newMS replicas)")
  have tr: "trace st' = trace st @ [ScaleRequest newMS replicas]"
    using sr by (rule storeRequest_trace)
  have ok: "faults st = [] \<Longrightarrow> ok"
    using sr by (simp add: storeRequest_no_faults)
  have run: "reconcileNewMachineSet newMSNewReplicas st allMSs newMS d =
          (st', if ok then Inr (newMS\<lparr>ms_Spec_Replicas := Some replicas\<rparr>) else Inl StoreError)"
    using assms lt ne sr by (simp add: reconcileNewMachineSet_def scaleMachineSet_def)
  show "trace (fst (reconcileNewMachineSet newMSNewReplicas st allMSs newMS d)) =
          trace st @ [ScaleRequest newMS replicas]"
    using run tr by simp
  show "snd (reconcileNewMachineSet newMSNewReplicas st allMSs newMS d) =
          Inr (newMS\<lparr>ms_Spec_Replicas := Some replicas\<rparr>) \<or>
        snd (reconcileNewMachineSet newMSNewReplicas st allMSs newMS d) = Inl StoreError"
    using run by simp
  show "snd (reconcileNewMachineSet newMSNewReplicas st allMSs newMS d) =
          Inr (newMS\<lparr>ms_Spec_Replicas := Some replicas\<rparr>)" if "faults st = []"
    using run ok that by simp
qed

theorem reconcileNewMachineSet_equal_or_above_witness:
  "trace (fst (reconcileNewMachineSet (\<lambda>_ _ _. Inr 0) quietStore [scenario5_N] scenario5_N
                 scenario5_d)) = [ScaleRequest scenario5_N 2] \<and>
   snd (reconcileNewMachineSet (\<lambda>_ _ _. Inr 0) quietStore [scenario5_N] scenario5_N scenario5_d) =
     Inr (scenario5_N\<lparr>ms_Spec_Replicas := Some 2\<rparr>)"
  using reconcileNewMachineSet_equal_or_above
    [of scenario5_d 2 scenario5_N 3 "\<lambda>_ _ _. Inr 0" quietStore "[scenario5_N]"]
  by (simp add: scenario5_d_def scenario5_N_def quietStore_def word_sless_alt)

section \<open>Status aggregation\<close>

text \<open>
  Claim C8. For a deployment with a replica count, the status that \<open>ensureStatus\<close>
  computes has \<open>UpdatedReplicas\<close> equal to the replicas in the status of the new set;
  \<open>Replicas\<close>, \<open>ReadyReplicas\<close> and \<open>AvailableReplicas\<close> equal to the sums of the
  corresponding status fields over the old sets and the new set; \<open>UnavailableReplicas\<close>
  equal to the larger of zero and the deployment's count minus the available replicas
  (in \<^verbatim>\<open>int32\<close>); and \<open>ObservedGeneration\<close> equal to the deployment's generation. When
  the deployment already carries that status, nothing is sent to the store; otherwise
  exactly one status update, carrying that status, is sent.
\<close>

theorem ensureStatus_aggregates:
  assumes "md_Spec_Replicas md = Some replicas"
    and "available = sum_list (map ms_Status_AvailableReplicas (oldMSs @ [newMS]))"
    and "newStatus =
           \<lparr>ObservedGeneration = md_Generation md,
            Replicas = sum_list (map ms_Status_Replicas (oldMSs @ [newMS])),
            UpdatedReplicas = ms_Status_Replicas newMS,
            ReadyReplicas = sum_list (map ms_Status_ReadyReplicas (oldMSs @ [newMS])),
            AvailableReplicas = available,
            UnavailableReplicas = (if replicas - available <s 0 then 0 else replicas - available)\<rparr>"
  shows "(md_Status md = newStatus \<longrightarrow> ensureStatus st md newMS oldMSs = (st, Inr md)) \<and>
         (md_Status md \<noteq> newStatus \<longrightarrow>
            ensureStatus st md newMS oldMSs = UpdateStatus st (md\<lparr>md_Status := newStatus\<rparr>) \<and>
            trace (fst (ensureStatus st md newMS oldMSs)) =
              trace st @ [StatusUpdate (md\<lparr>md_Status := newStatus\<rparr>)])"
proof -
  have tr: "trace (fst (UpdateStatus st x)) = trace st @ [StatusUpdate x]" for x
    by (auto simp: UpdateStatus_def storeRequest_def split: list.splits)
  show ?thesis
    using assms tr by (simp add: ensureStatus_def Let_def sumStatus_sums)
qed

theorem ensureStatus_aggregates_witness:
  "ensureStatus quietStore scenario4_d scenario4_B [scenario4_A] =
     (\<lparr>trace = [StatusUpdate (scenario4_d\<lparr>md_Status :=
          \<lparr>ObservedGeneration = 1, Replicas = 13, UpdatedReplicas = 5, ReadyReplicas = 6,
           AvailableReplicas = 6, UnavailableReplicas = 4\<rparr>\<rparr>)], faults = []\<rparr>,
      Inr (scenario4_d\<lparr>md_Status :=
          \<lparr>ObservedGeneration = 1, Replicas = 13, UpdatedReplicas = 5, ReadyReplicas = 6,
           AvailableReplicas = 6, UnavailableReplicas = 4\<rparr>\<rparr>))"
  using ensureStatus_aggregates [OF _ refl refl, where md = scenario4_d and replicas = 10
      and newMS = scenario4_B and oldMSs = "[scenario4_A]" and st = quietStore]
  by (simp add: scenario4_d_def scenario4_A_def scenario4_B_def quietStore_def emptyStatus_def
      UpdateStatus_def storeRequest_def word_sless_alt)

section \<open>Signed arithmetic without wrap-around\<close>

lemma sint32_bounds: "- 2147483648 \<le> sint (x::int32)" "sint (x::int32) \<le> 2147483647"
  using sint_ge [of x] sint_lt [of x] by simp_all

lemma sint32_sub:
  "- 2147483648 \<le> sint a - sint b \<Longrightarrow> sint a - sint b \<le> 2147483647 \<Longrightarrow>
   sint (a - b :: int32) = sint a - sint b"
  by (simp add: sint_word_ariths signed_take_bit_int_eq_self)

lemma sint32_add:
  "- 2147483648 \<le> sint a + sint b \<Longrightarrow> sint a + sint b \<le> 2147483647 \<Longrightarrow>
   sint (a + b :: int32) = sint a + sint b"
  by (simp add: sint_word_ariths signed_take_bit_int_eq_self)

lemma sint32_eq_0: "sint (x::int32) = 0 \<longleftrightarrow> x = 0"
  by (rule signed_eq_0_iff)

lemma sint_Int32Min: "sint (Int32Min a b) = min (sint a) (sint b)"
  by (simp add: Int32Min_def word_sless_alt min_def)

section \<open>Facts about the set mutator and the sorting\<close>

lemma keepSet_eq:
  "keepSet ms (st, res) = (st, case res of Inl e \<Rightarrow> Inl e | Inr (l, n) \<Rightarrow> Inr (ms # l, n))"
  by (simp add: keepSet_def split: sum.splits prod.splits)

lemma scaleMachineSet_Some:
  assumes "ms_Spec_Replicas ms = Some r"
  shows "scaleMachineSet st ms n d =
           (if r = n then (st, Inr (False, ms))
            else case storeRequest st (ScaleRequest ms n) of
                   (st', ok) \<Rightarrow> if ok then (st', Inr (True, ms\<lparr>ms_Spec_Replicas := Some n\<rparr>))
                                else (st', Inl StoreError))"
  using assms by (simp add: scaleMachineSet_def)

lemma scaleMachineSet_Inr:
  assumes "ms_Spec_Replicas ms = Some r" "scaleMachineSet st ms n d = (st', Inr (b, ms'))"
  shows "ms' = ms\<lparr>ms_Spec_Replicas := Some n\<rparr>"
    and "trace st' = trace st @ (if r = n then [] else [ScaleRequest ms n])"
  using assms
  by (auto simp: scaleMachineSet_Some storeRequest_def split: if_splits list.splits)

lemma scaleMachineSet_trace:
  assumes "ms_Spec_Replicas ms = Some r" "scaleMachineSet st ms n d = (st', res)"
  shows "trace st' = trace st @ (if r = n then [] else [ScaleRequest ms n])"
  using assms
  by (auto simp: scaleMachineSet_Some storeRequest_def split: if_splits list.splits)

lemma scaleMachineSet_no_faults:
  assumes "ms_Spec_Replicas ms = Some r" "\<forall>f\<in>set (faults st). \<not> f"
  shows "\<exists>st' b. scaleMachineSet st ms n d = (st', Inr (b, ms\<lparr>ms_Spec_Replicas := Some n\<rparr>)) \<and>
           (\<forall>f\<in>set (faults st'). \<not> f)"
  using assms
  by (auto simp: scaleMachineSet_Some storeRequest_def split: if_splits list.splits)

lemma scaleMachineSet_Inl:
  assumes "ms_Spec_Replicas ms = Some r" "scaleMachineSet st ms n d = (st', Inl e)"
  shows "e = StoreError"
  using assms
  by (auto simp: scaleMachineSet_Some storeRequest_def split: if_splits list.splits)

lemma GetAvailable_sum:
  "GetAvailableReplicaCountForMachineSets mss = sum_list (map ms_Status_AvailableReplicas mss)"
  by (induction mss) simp_all

lemma sortByCreationTimestamp_sorted:
  "sorted (map ms_CreationTimestamp (sortByCreationTimestamp mss))"
  "mset (sortByCreationTimestamp mss) = mset mss"
  "set (sortByCreationTimestamp mss) = set mss"
  by (simp_all add: sortByCreationTimestamp_def)

lemma reductionApplied_same [simp]: "reductionApplied mss mss = 0"
  by (induction mss) (simp_all add: reductionApplied_def)

lemma scaleRequests_same [simp]: "scaleRequests mss mss = []"
  by (induction mss) (simp_all add: scaleRequests_def split: option.splits)

lemma reductionApplied_Cons [simp]:
  "reductionApplied (b # bs) (a # as) = replicasInt b - replicasInt a + reductionApplied bs as"
  by (simp add: reductionApplied_def)

lemma scaleRequests_Cons [simp]:
  "scaleRequests (b # bs) (a # as) =
     (case ms_Spec_Replicas a of
        Some k \<Rightarrow> if ms_Spec_Replicas b = Some k then [] else [ScaleRequest b k]
      | None \<Rightarrow> []) @ scaleRequests bs as"
  by (simp add: scaleRequests_def)

section \<open>The loop of the availability-gated scale-down\<close>

text \<open>
  The equation of the loop for a set with a replica count, with the local bindings
  unfolded, and the cases of one round of the loop.
\<close>

lemma scaleDownLoop_Cons:
  "ms_Spec_Replicas ms = Some r \<Longrightarrow>
   scaleDownLoop st d Q T (ms # rest) =
     (if Q \<le>s T then (st, Inr (ms # rest, T))
      else if r = 0 then keepSet ms (scaleDownLoop st d Q T rest)
      else if r <s r - Int32Min r (Q - T) then
        (st, Inl (InvalidScaleDown (ms_Name ms) r (r - Int32Min r (Q - T))))
      else
        (case scaleMachineSet st ms (r - Int32Min r (Q - T)) d of
           (st', Inl err) \<Rightarrow> (st', Inl err)
         | (st', Inr (_, updatedMS)) \<Rightarrow>
             keepSet updatedMS (scaleDownLoop st' d Q (T + Int32Min r (Q - T)) rest)))"
  by (simp add: Let_def)

lemma scaleDownLoop_Cons_None:
  "ms_Spec_Replicas ms = None \<Longrightarrow>
   scaleDownLoop st d Q T (ms # rest) = (st, Inl (NilMachineSetReplicas (ms_Name ms)))"
  by simp

declare scaleDownLoop.simps(2) [simp del]

lemma scaleDownLoop_Cons_cases:
  assumes "scaleDownLoop st d Q T (ms # rest) = (st', res)"
  obtains
    (nil) "ms_Spec_Replicas ms = None" "st' = st" "res = Inl (NilMachineSetReplicas (ms_Name ms))"
  | (stop) r where "ms_Spec_Replicas ms = Some r" "Q \<le>s T" "st' = st" "res = Inr (ms # rest, T)"
  | (skip) res0 where "ms_Spec_Replicas ms = Some 0" "\<not> Q \<le>s T"
      "scaleDownLoop st d Q T rest = (st', res0)"
      "res = (case res0 of Inl e \<Rightarrow> Inl e | Inr (l, n) \<Rightarrow> Inr (ms # l, n))"
  | (invalid) r where "ms_Spec_Replicas ms = Some r" "\<not> Q \<le>s T" "r \<noteq> 0"
      "r <s r - Int32Min r (Q - T)" "st' = st"
      "res = Inl (InvalidScaleDown (ms_Name ms) r (r - Int32Min r (Q - T)))"
  | (refused) r e where "ms_Spec_Replicas ms = Some r" "\<not> Q \<le>s T" "r \<noteq> 0"
      "\<not> r <s r - Int32Min r (Q - T)"
      "scaleMachineSet st ms (r - Int32Min r (Q - T)) d = (st', Inl e)"
      "res = Inl e"
  | (scaled) r st1 b ms' res0 where "ms_Spec_Replicas ms = Some r" "\<not> Q \<le>s T" "r \<noteq> 0"
      "\<not> r <s r - Int32Min r (Q - T)"
      "scaleMachineSet st ms (r - Int32Min r (Q - T)) d = (st1, Inr (b, ms'))"
      "scaleDownLoop st1 d Q (T + Int32Min r (Q - T)) rest = (st', res0)"
      "res = (case res0 of Inl e \<Rightarrow> Inl e | Inr (l, n) \<Rightarrow> Inr (ms' # l, n))"
proof (cases "ms_Spec_Replicas ms")
  case None
  with assms nil show ?thesis by (simp add: scaleDownLoop_Cons_None)
next
  case (Some r)
  show ?thesis
  proof (cases "Q \<le>s T")
    case True
    with assms Some stop show ?thesis by (simp add: scaleDownLoop_Cons)
  next
    case nb: False
    show ?thesis
    proof (cases "r = 0")
      case True
      obtain st0 res0 where l: "scaleDownLoop st d Q T rest = (st0, res0)"
        by (cases "scaleDownLoop st d Q T rest")
      with assms nb True have "st' = st0"
        "res = (case res0 of Inl e \<Rightarrow> Inl e | Inr (l, n) \<Rightarrow> Inr (ms # l, n))"
        by (simp_all add: scaleDownLoop_Cons [OF Some] keepSet_eq)
      with l Some nb True skip show ?thesis by blast
    next
      case ne: False
      define new where "new = r - Int32Min r (Q - T)"
      show ?thesis
      proof (cases "r <s new")
        case True
        with assms nb ne have "st' = st" "res = Inl (InvalidScaleDown (ms_Name ms) r new)"
          by (simp_all add: scaleDownLoop_Cons [OF Some] new_def)
        with Some nb ne True invalid show ?thesis unfolding new_def by blast
      next
        case ok: False
        obtain st1 r1 where s: "scaleMachineSet st ms new d = (st1, r1)"
          by (cases "scaleMachineSet st ms new d")
        show ?thesis
        proof (cases r1)
          case (Inl e)
          with assms nb ne ok s have "st' = st1" "res = Inl e"
            by (simp_all add: scaleDownLoop_Cons [OF Some] new_def)
          with Some nb ne ok s Inl refused show ?thesis unfolding new_def by blast
        next
          case (Inr p)
          obtain b ms' where p: "p = (b, ms')" by (cases p)
          obtain st0 res0 where l:
            "scaleDownLoop st1 d Q (T + Int32Min r (Q - T)) rest = (st0, res0)"
            by (cases "scaleDownLoop st1 d Q (T + Int32Min r (Q - T)) rest")
          with assms nb ne ok s Inr p have "st' = st0"
            "res = (case res0 of Inl e \<Rightarrow> Inl e | Inr (l, n) \<Rightarrow> Inr (ms' # l, n))"
            by (simp_all add: scaleDownLoop_Cons [OF Some] new_def keepSet_eq)
          with Some nb ne ok s Inr p l scaled show ?thesis unfolding new_def by blast
        qed
      qed
    qed
  qed
qed

text \<open>
  One round on a set with a positive count while quota remains: nothing wraps around.
  A negative count reached while quota remains is an invalid request.
\<close>

lemma scaleDown_step:
  fixes T Q r :: int32
  assumes "0 \<le>s T" "\<not> Q \<le>s T" "0 <s r"
  shows "sint (Q - T) = sint Q - sint T"
    and "sint (Int32Min r (Q - T)) = min (sint r) (sint Q - sint T)"
    and "sint (r - Int32Min r (Q - T)) = sint r - min (sint r) (sint Q - sint T)"
    and "sint (T + Int32Min r (Q - T)) = sint T + min (sint r) (sint Q - sint T)"
proof -
  have T: "0 \<le> sint T" "sint T < sint Q" and r: "0 < sint r"
    using assms by (auto simp: word_sle_eq word_sless_alt)
  have b: "sint Q \<le> 2147483647" "sint r \<le> 2147483647" by (rule sint32_bounds)+
  show rem: "sint (Q - T) = sint Q - sint T"
    using T b by (intro sint32_sub) auto
  show d: "sint (Int32Min r (Q - T)) = min (sint r) (sint Q - sint T)"
    by (simp add: sint_Int32Min rem)
  show "sint (r - Int32Min r (Q - T)) = sint r - min (sint r) (sint Q - sint T)"
    using T r b d by (subst sint32_sub) auto
  show "sint (T + Int32Min r (Q - T)) = sint T + min (sint r) (sint Q - sint T)"
    using T r b d by (subst sint32_add) auto
qed

lemma scaleDown_negative:
  fixes T Q r :: int32
  assumes "0 \<le>s T" "\<not> Q \<le>s T" "r <s 0"
  shows "r <s r - Int32Min r (Q - T)"
proof -
  have T: "0 \<le> sint T" "sint T < sint Q" and r: "sint r < 0"
    using assms by (auto simp: word_sle_eq word_sless_alt)
  have b: "sint Q \<le> 2147483647" by (rule sint32_bounds)
  have rem: "sint (Q - T) = sint Q - sint T"
    using T b by (intro sint32_sub) auto
  have "Int32Min r (Q - T) = r"
    using r T rem by (simp add: Int32Min_def word_sless_alt)
  then show ?thesis using r by (simp add: word_sless_alt)
qed

lemma scaleDown_valid:
  fixes T Q r :: int32
  assumes "0 \<le>s T" "\<not> Q \<le>s T" "0 \<le>s r" "r \<noteq> 0"
  shows "0 <s r" "\<not> r <s r - Int32Min r (Q - T)"
    "0 \<le>s T + Int32Min r (Q - T)" "T + Int32Min r (Q - T) \<le>s Q"
proof -
  show pos: "0 <s r"
    using assms(3,4) sint32_eq_0 [of r] by (auto simp: word_sle_eq word_sless_alt)
  note step = scaleDown_step [OF assms(1,2) pos]
  show "\<not> r <s r - Int32Min r (Q - T)"
    using step assms(1,2) pos by (auto simp: word_sle_eq word_sless_alt)
  show "0 \<le>s T + Int32Min r (Q - T)" "T + Int32Min r (Q - T) \<le>s Q"
    using step assms(1,2) pos by (auto simp: word_sle_eq word_sless_alt)
qed

lemma scaleDownLoop_refines:
  assumes "0 \<le>s T" "T = 0 \<or> T \<le>s Q"
    and "scaleDownLoop st d Q T mss = (st', Inr (mss', T'))"
  shows "drainOldSets (Q - T) mss = (mss', T' - T) \<and>
         sint T' = sint T + reductionApplied mss mss' \<and>
         trace st' = trace st @ scaleRequests mss mss'"
  using assms
proof (induction mss arbitrary: st T st' mss' T')
  case Nil
  then show ?case by simp
next
  case (Cons ms rest)
  have quota: "Q - T \<le>s 0 \<longleftrightarrow> Q \<le>s T"
  proof (cases "T = 0")
    case True
    then show ?thesis by simp
  next
    case False
    with Cons.prems have "0 \<le> sint T" "sint T \<le> sint Q" by (auto simp: word_sle_eq)
    moreover have "sint Q \<le> 2147483647" by (rule sint32_bounds)
    ultimately have "sint (Q - T) = sint Q - sint T" by (intro sint32_sub) auto
    then show ?thesis by (auto simp: word_sle_eq)
  qed
  from Cons.prems(3) show ?case
  proof (cases rule: scaleDownLoop_Cons_cases)
    case nil
    then show ?thesis by simp
  next
    case (stop r)
    with quota show ?thesis by simp
  next
    case (skip res0)
    then obtain l where res0: "res0 = Inr (l, T')" and mss': "mss' = ms # l"
      by (auto split: sum.splits)
    from Cons.IH [OF Cons.prems(1,2) skip(3) [unfolded res0]] skip(1,2) quota mss'
    show ?thesis by (simp add: replicasInt_def)
  next
    case (invalid r)
    then show ?thesis by simp
  next
    case (refused r e)
    then show ?thesis by simp
  next
    case (scaled r st1 b ms' res0)
    define delta where "delta = Int32Min r (Q - T)"
    have pos: "0 <s r"
    proof (rule ccontr)
      assume "\<not> 0 <s r"
      with scaled(3) sint32_eq_0 [of r] have "r <s 0" by (auto simp: word_sless_alt)
      from scaleDown_negative [OF Cons.prems(1) scaled(2) this] scaled(4) show False by simp
    qed
    note step = scaleDown_step [OF Cons.prems(1) scaled(2) pos, folded delta_def]
    have T1: "0 \<le>s T + delta" "T + delta \<le>s Q"
      using step Cons.prems(1) scaled(2) pos by (auto simp: word_sle_eq word_sless_alt)
    obtain l where res0: "res0 = Inr (l, T')" and mss': "mss' = ms' # l"
      using scaled(7) by (auto split: sum.splits)
    have ms': "ms' = ms\<lparr>ms_Spec_Replicas := Some (r - delta)\<rparr>"
      and tr: "trace st1 = trace st @ (if r = r - delta then [] else [ScaleRequest ms (r - delta)])"
      using scaleMachineSet_Inr [OF scaled(1) scaled(5)] by (simp_all add: delta_def)
    have IH: "drainOldSets (Q - (T + delta)) rest = (l, T' - (T + delta))"
      "sint T' = sint (T + delta) + reductionApplied rest l"
      "trace st' = trace st1 @ scaleRequests rest l"
      using Cons.IH [OF T1(1) disjI2 [OF T1(2)] scaled(6) [folded delta_def, unfolded res0]]
      by simp_all
    have d1: "Q - T - delta = Q - (T + delta)" by simp
    have d2: "sint r - sint (r - delta) = sint delta" using step by simp
    show ?thesis
      using IH scaled(1,2) quota pos mss' ms' tr step(2,4) d2
      by (simp add: Let_def delta_def [symmetric] d1 replicasInt_def)
  qed
qed

lemma scaleDownLoop_never_invalid:
  assumes "0 \<le>s T" "T = 0 \<or> T \<le>s Q"
    and "\<forall>ms\<in>set mss. \<forall>r. ms_Spec_Replicas ms = Some r \<longrightarrow> 0 \<le>s r"
  shows "scaleDownLoop st d Q T mss \<noteq> (st', Inl (InvalidScaleDown nm a b))"
  using assms
proof (induction mss arbitrary: st T)
  case Nil
  then show ?case by simp
next
  case (Cons ms rest)
  show ?case
  proof
    assume "scaleDownLoop st d Q T (ms # rest) = (st', Inl (InvalidScaleDown nm a b))"
    then show False
    proof (cases rule: scaleDownLoop_Cons_cases)
      case nil
      then show ?thesis by simp
    next
      case (stop r)
      then show ?thesis by simp
    next
      case (skip res0)
      with Cons.IH [OF Cons.prems(1,2), of st] Cons.prems(3) show ?thesis
        by (auto split: sum.splits)
    next
      case (invalid r)
      with Cons.prems(3) have "0 \<le>s r" by simp
      from scaleDown_valid(2) [OF Cons.prems(1) invalid(2) this invalid(3)] invalid(4)
      show ?thesis by simp
    next
      case (refused r e)
      with scaleMachineSet_Inl [OF refused(1) refused(5)] show ?thesis by simp
    next
      case (scaled r st1 b' ms' res0)
      with Cons.prems(3) have "0 \<le>s r" by simp
      note v = scaleDown_valid [OF Cons.prems(1) scaled(2) this scaled(3)]
      from Cons.IH [OF v(3) disjI2 [OF v(4)], of st1] Cons.prems(3) scaled(6,7)
      show ?thesis by (auto split: sum.splits)
    qed
  qed
qed

lemma scaleDownLoop_total:
  assumes "0 \<le>s T" "T = 0 \<or> T \<le>s Q"
    and "\<forall>ms\<in>set mss. \<exists>r. ms_Spec_Replicas ms = Some r \<and> 0 \<le>s r"
    and "\<forall>f\<in>set (faults st). \<not> f"
  shows "\<exists>st' res. scaleDownLoop st d Q T mss = (st', Inr res)"
  using assms
proof (induction mss arbitrary: st T)
  case Nil
  then show ?case by simp
next
  case (Cons ms rest)
  obtain st' res where run: "scaleDownLoop st d Q T (ms # rest) = (st', res)"
    by (cases "scaleDownLoop st d Q T (ms # rest)")
  from Cons.prems(3) have rest: "\<forall>ms\<in>set rest. \<exists>r. ms_Spec_Replicas ms = Some r \<and> 0 \<le>s r"
    by simp
  from run have "\<exists>x. res = Inr x"
  proof (cases rule: scaleDownLoop_Cons_cases)
    case nil
    with Cons.prems(3) show ?thesis by simp
  next
    case (stop r)
    then show ?thesis by simp
  next
    case (skip res0)
    with Cons.IH [OF Cons.prems(1,2) rest Cons.prems(4)] show ?thesis
      by (auto split: sum.splits)
  next
    case (invalid r)
    with Cons.prems(3) have "0 \<le>s r" by simp
    from scaleDown_valid(2) [OF Cons.prems(1) invalid(2) this invalid(3)] invalid(4)
    show ?thesis by simp
  next
    case (refused r e)
    with scaleMachineSet_no_faults [OF refused(1) Cons.prems(4), of "r - Int32Min r (Q - T)" d]
    show ?thesis by auto
  next
    case (scaled r st1 b' ms' res0)
    with Cons.prems(3) have "0 \<le>s r" by simp
    note v = scaleDown_valid [OF Cons.prems(1) scaled(2) this scaled(3)]
    from scaleMachineSet_no_faults [OF scaled(1) Cons.prems(4), of "r - Int32Min r (Q - T)" d]
      scaled(5)
    have "\<forall>f\<in>set (faults st1). \<not> f" by auto
    from Cons.IH [OF v(3) disjI2 [OF v(4)] rest this] scaled(6,7)
    show ?thesis by (auto split: sum.splits)
  qed
  with run show ?case by auto
qed

lemma scaleDownLoop_trace:
  assumes "scaleDownLoop st d Q T mss = (st', res)"
  shows "\<exists>evs. trace st' = trace st @ evs \<and> (\<forall>ev\<in>set evs. reducingRequest ev)"
  using assms
proof (induction mss arbitrary: st T res)
  case Nil
  then show ?case by simp
next
  case (Cons ms rest)
  have one: "\<exists>evs. trace st1 = trace st @ evs \<and> (\<forall>ev\<in>set evs. reducingRequest ev)"
    if "ms_Spec_Replicas ms = Some r" "\<not> r <s n" "scaleMachineSet st ms n d = (st1, x)"
    for r n st1 x
  proof -
    have "n \<le>s r" using that(2) by (simp add: word_sle_eq word_sless_alt)
    then have "reducingRequest (ScaleRequest ms n)"
      using that(1) by (simp add: reducingRequest_def)
    with scaleMachineSet_trace [OF that(1,3)] show ?thesis by auto
  qed
  from Cons.prems show ?case
  proof (cases rule: scaleDownLoop_Cons_cases)
    case nil
    then show ?thesis by simp
  next
    case (stop r)
    then show ?thesis by simp
  next
    case (skip res0)
    with Cons.IH show ?thesis by blast
  next
    case (invalid r)
    then show ?thesis by simp
  next
    case (refused r e)
    with one show ?thesis by blast
  next
    case (scaled r st1 b' ms' res0)
    from one [OF scaled(1,4,5)] obtain evs1 where
      "trace st1 = trace st @ evs1" "\<forall>ev\<in>set evs1. reducingRequest ev" by blast
    moreover from Cons.IH [OF scaled(6)] obtain evs2 where
      "trace st' = trace st1 @ evs2" "\<forall>ev\<in>set evs2. reducingRequest ev" by blast
    ultimately have "trace st' = trace st @ (evs1 @ evs2)"
      "\<forall>ev\<in>set (evs1 @ evs2). reducingRequest ev" by auto
    then show ?thesis by blast
  qed
qed

lemma scaleDownOld_unfold:
  assumes "md_Spec_Replicas d = Some replicas"
  shows "scaleDownOldMachineSetsForRollingUpdate maxUnavail st allMSs oldMSs d =
     (if GetAvailableReplicaCountForMachineSets allMSs \<le>s replicas - maxUnavail d
      then (st, Inr (0, oldMSs))
      else (case scaleDownLoop st d
                   (GetAvailableReplicaCountForMachineSets allMSs - (replicas - maxUnavail d)) 0
                   (sortByCreationTimestamp oldMSs) of
              (st', Inl err) \<Rightarrow> (st', Inl err)
            | (st', Inr (oldMSs', totalScaledDown)) \<Rightarrow> (st', Inr (totalScaledDown, oldMSs'))))"
  using assms by (simp add: scaleDownOldMachineSetsForRollingUpdate_def Let_def)

lemma scaleDownOld_trace:
  assumes "scaleDownOldMachineSetsForRollingUpdate maxUnavail st allMSs oldMSs d = (st', res)"
  shows "\<exists>evs. trace st' = trace st @ evs \<and> (\<forall>ev\<in>set evs. reducingRequest ev)"
proof (cases "md_Spec_Replicas d")
  case None
  with assms show ?thesis by (simp add: scaleDownOldMachineSetsForRollingUpdate_def)
next
  case (Some replicas)
  show ?thesis
  proof (cases "GetAvailableReplicaCountForMachineSets allMSs \<le>s replicas - maxUnavail d")
    case True
    with assms show ?thesis by (simp add: scaleDownOld_unfold [OF Some])
  next
    case False
    obtain st1 r1 where l: "scaleDownLoop st d
        (GetAvailableReplicaCountForMachineSets allMSs - (replicas - maxUnavail d)) 0
        (sortByCreationTimestamp oldMSs) = (st1, r1)"
      by (cases "scaleDownLoop st d
        (GetAvailableReplicaCountForMachineSets allMSs - (replicas - maxUnavail d)) 0
        (sortByCreationTimestamp oldMSs)")
    with assms False have "st' = st1"
      by (auto simp: scaleDownOld_unfold [OF Some] split: sum.splits)
    with scaleDownLoop_trace [OF l] show ?thesis by simp
  qed
qed

lemma scaleDown_lowers:
  fixes T Q r :: int32
  assumes "0 \<le>s T" "\<not> Q \<le>s T" "0 \<le>s r" "r \<noteq> 0"
  shows "r - Int32Min r (Q - T) <s r"
proof -
  have pos: "0 <s r" using assms by (rule scaleDown_valid(1))
  note step = scaleDown_step [OF assms(1,2) pos]
  show ?thesis
    using step assms(1,2) pos by (auto simp: word_sle_eq word_sless_alt)
qed

lemma lowering_request:
  assumes "ms_Spec_Replicas ms = Some r" "n <s r" "scaleMachineSet st ms n d = (st1, x)"
  shows "\<exists>evs. trace st1 = trace st @ evs \<and> (\<forall>ev\<in>set evs. loweringRequest ev)"
proof -
  have "loweringRequest (ScaleRequest ms n)"
    using assms(1,2) by (simp add: loweringRequest_def)
  with scaleMachineSet_trace [OF assms(1,3)] show ?thesis by auto
qed

lemma scaleDownLoop_lowers:
  assumes "0 \<le>s T" "T = 0 \<or> T \<le>s Q"
    and "\<forall>ms\<in>set mss. \<forall>r. ms_Spec_Replicas ms = Some r \<longrightarrow> 0 \<le>s r"
    and "scaleDownLoop st d Q T mss = (st', res)"
  shows "\<exists>evs. trace st' = trace st @ evs \<and> (\<forall>ev\<in>set evs. loweringRequest ev)"
  using assms
proof (induction mss arbitrary: st T res)
  case Nil
  then show ?case by simp
next
  case (Cons ms rest)
  from Cons.prems(3) have rest: "\<forall>ms\<in>set rest. \<forall>r. ms_Spec_Replicas ms = Some r \<longrightarrow> 0 \<le>s r"
    by simp
  from Cons.prems(4) show ?case
  proof (cases rule: scaleDownLoop_Cons_cases)
    case nil
    then show ?thesis by simp
  next
    case (stop r)
    then show ?thesis by simp
  next
    case (skip res0)
    with Cons.IH [OF Cons.prems(1,2) rest] show ?thesis by blast
  next
    case (invalid r)
    then show ?thesis by simp
  next
    case (refused r e)
    with Cons.prems(3) have "0 \<le>s r" by simp
    from scaleDown_lowers [OF Cons.prems(1) refused(2) this refused(3)]
    show ?thesis using lowering_request [OF refused(1) _ refused(5)] by blast
  next
    case (scaled r st1 b' ms' res0)
    with Cons.prems(3) have r0: "0 \<le>s r" by simp
    note v = scaleDown_valid [OF Cons.prems(1) scaled(2) r0 scaled(3)]
    from lowering_request [OF scaled(1) scaleDown_lowers [OF Cons.prems(1) scaled(2) r0 scaled(3)]
        scaled(5)]
    obtain evs1 where
      "trace st1 = trace st @ evs1" "\<forall>ev\<in>set evs1. loweringRequest ev" by blast
    moreover from Cons.IH [OF v(3) disjI2 [OF v(4)] rest scaled(6)] obtain evs2 where
      "trace st' = trace st1 @ evs2" "\<forall>ev\<in>set evs2. loweringRequest ev" by blast
    ultimately have "trace st' = trace st @ (evs1 @ evs2)"
      "\<forall>ev\<in>set (evs1 @ evs2). loweringRequest ev" by auto
    then show ?thesis by blast
  qed
qed

section \<open>The loop of the unhealthy cleanup\<close>

lemma cleanupLoop_Cons:
  "ms_Spec_Replicas ms = Some r \<Longrightarrow>
   cleanupLoop st d M T (ms # rest) =
     (if M \<le>s T then (st, Inr (ms # rest, T))
      else if r = 0 \<or> r = ms_Status_AvailableReplicas ms then
        keepSet ms (cleanupLoop st d M T rest)
      else if r <s r - Int32Min (M - T) (r - ms_Status_AvailableReplicas ms) then
        (st, Inl (InvalidCleanup (ms_Name ms) r
                    (r - Int32Min (M - T) (r - ms_Status_AvailableReplicas ms))))
      else
        (case scaleMachineSet st ms (r - Int32Min (M - T) (r - ms_Status_AvailableReplicas ms)) d of
           (st', Inl err) \<Rightarrow> (st', Inl err)
         | (st', Inr (_, updatedOldMS)) \<Rightarrow>
             keepSet updatedOldMS
               (cleanupLoop st' d M
                  (T + Int32Min (M - T) (r - ms_Status_AvailableReplicas ms)) rest)))"
  by (simp add: Let_def)

lemma cleanupLoop_Cons_None:
  "ms_Spec_Replicas ms = None \<Longrightarrow>
   cleanupLoop st d M T (ms # rest) = (st, Inl (NilMachineSetReplicas (ms_Name ms)))"
  by simp

declare cleanupLoop.simps(2) [simp del]

lemma cleanupLoop_Cons_cases:
  assumes "cleanupLoop st d M T (ms # rest) = (st', res)"
  obtains
    (nil) "ms_Spec_Replicas ms = None" "st' = st" "res = Inl (NilMachineSetReplicas (ms_Name ms))"
  | (stop) r where "ms_Spec_Replicas ms = Some r" "M \<le>s T" "st' = st" "res = Inr (ms # rest, T)"
  | (skip) r res0 where "ms_Spec_Replicas ms = Some r" "\<not> M \<le>s T"
      "r = 0 \<or> r = ms_Status_AvailableReplicas ms"
      "cleanupLoop st d M T rest = (st', res0)"
      "res = (case res0 of Inl e \<Rightarrow> Inl e | Inr (l, n) \<Rightarrow> Inr (ms # l, n))"
  | (invalid) r where "ms_Spec_Replicas ms = Some r" "\<not> M \<le>s T" "r \<noteq> 0"
      "r \<noteq> ms_Status_AvailableReplicas ms"
      "r <s r - Int32Min (M - T) (r - ms_Status_AvailableReplicas ms)" "st' = st"
      "res = Inl (InvalidCleanup (ms_Name ms) r
                    (r - Int32Min (M - T) (r - ms_Status_AvailableReplicas ms)))"
  | (refused) r e where "ms_Spec_Replicas ms = Some r" "\<not> M \<le>s T" "r \<noteq> 0"
      "r \<noteq> ms_Status_AvailableReplicas ms"
      "\<not> r <s r - Int32Min (M - T) (r - ms_Status_AvailableReplicas ms)"
      "scaleMachineSet st ms (r - Int32Min (M - T) (r - ms_Status_AvailableReplicas ms)) d =
         (st', Inl e)"
      "res = Inl e"
  | (scaled) r st1 b ms' res0 where "ms_Spec_Replicas ms = Some r" "\<not> M \<le>s T" "r \<noteq> 0"
      "r \<noteq> ms_Status_AvailableReplicas ms"
      "\<not> r <s r - Int32Min (M - T) (r - ms_Status_AvailableReplicas ms)"
      "scaleMachineSet st ms (r - Int32Min (M - T) (r - ms_Status_AvailableReplicas ms)) d =
         (st1, Inr (b, ms'))"
      "cleanupLoop st1 d M (T + Int32Min (M - T) (r - ms_Status_AvailableReplicas ms)) rest =
         (st', res0)"
      "res = (case res0 of Inl e \<Rightarrow> Inl e | Inr (l, n) \<Rightarrow> Inr (ms' # l, n))"
proof (cases "ms_Spec_Replicas ms")
  case None
  with assms nil show ?thesis by (simp add: cleanupLoop_Cons_None)
next
  case (Some r)
  show ?thesis
  proof (cases "M \<le>s T")
    case True
    with assms Some stop show ?thesis by (simp add: cleanupLoop_Cons)
  next
    case nb: False
    show ?thesis
    proof (cases "r = 0 \<or> r = ms_Status_AvailableReplicas ms")
      case True
      obtain st0 res0 where l: "cleanupLoop st d M T rest = (st0, res0)"
        by (cases "cleanupLoop st d M T rest")
      with assms nb True have "st' = st0"
        "res = (case res0 of Inl e \<Rightarrow> Inl e | Inr (l, n) \<Rightarrow> Inr (ms # l, n))"
        by (simp_all add: cleanupLoop_Cons [OF Some] keepSet_eq)
      with l Some nb True skip show ?thesis by blast
    next
      case ne: False
      define new where "new = r - Int32Min (M - T) (r - ms_Status_AvailableReplicas ms)"
      show ?thesis
      proof (cases "r <s new")
        case True
        with assms nb ne have "st' = st" "res = Inl (InvalidCleanup (ms_Name ms) r new)"
          by (simp_all add: cleanupLoop_Cons [OF Some] new_def)
        with Some nb ne True invalid show ?thesis unfolding new_def by blast
      next
        case ok: False
        obtain st1 r1 where s: "scaleMachineSet st ms new d = (st1, r1)"
          by (cases "scaleMachineSet st ms new d")
        show ?thesis
        proof (cases r1)
          case (Inl e)
          with assms nb ne ok s have "st' = st1" "res = Inl e"
            by (simp_all add: cleanupLoop_Cons [OF Some] new_def)
          with Some nb ne ok s Inl refused show ?thesis unfolding new_def by blast
        next
          case (Inr p)
          obtain b ms' where p: "p = (b, ms')" by (cases p)
          obtain st0 res0 where l:
            "cleanupLoop st1 d M (T + Int32Min (M - T) (r - ms_Status_AvailableReplicas ms)) rest =
               (st0, res0)"
            by (cases "cleanupLoop st1 d M
                         (T + Int32Min (M - T) (r - ms_Status_AvailableReplicas ms)) rest")
          with assms nb ne ok s Inr p have "st' = st0"
            "res = (case res0 of Inl e \<Rightarrow> Inl e | Inr (l, n) \<Rightarrow> Inr (ms' # l, n))"
            by (simp_all add: cleanupLoop_Cons [OF Some] new_def keepSet_eq)
          with Some nb ne ok s Inr p l scaled show ?thesis unfolding new_def by blast
        qed
      qed
    qed
  qed
qed

text \<open>
  One round on a set with fewer replicas available than wanted, the difference fitting
  \<^verbatim>\<open>int32\<close>: nothing wraps around. A set with more replicas available than wanted,
  reached while budget remains, is an invalid request.
\<close>

lemma cleanup_step:
  fixes T M r a :: int32
  assumes "0 \<le>s T" "\<not> M \<le>s T" "a \<le>s r" "r \<noteq> a" "sint r - sint a \<le> 2147483647"
  shows "sint (Int32Min (M - T) (r - a)) = min (sint M - sint T) (sint r - sint a)"
    and "sint (r - Int32Min (M - T) (r - a)) = sint r - min (sint M - sint T) (sint r - sint a)"
    and "sint (T + Int32Min (M - T) (r - a)) = sint T + min (sint M - sint T) (sint r - sint a)"
    and "a <s r"
proof -
  have T: "0 \<le> sint T" "sint T < sint M"
    using assms by (auto simp: word_sle_eq word_sless_alt)
  have "sint r = sint a \<Longrightarrow> r = a" by (rule signed_word_eqI)
  with assms(4) have "sint r \<noteq> sint a" by blast
  with assms(3) have lt: "sint a < sint r" by (simp add: word_sle_eq)
  then show "a <s r" by (simp add: word_sless_alt)
  have b: "sint M \<le> 2147483647" "- 2147483648 \<le> sint a" "sint r \<le> 2147483647"
    by (rule sint32_bounds)+
  have rem: "sint (M - T) = sint M - sint T"
    using T b by (intro sint32_sub) auto
  have u: "sint (r - a) = sint r - sint a"
    using lt assms(5) by (intro sint32_sub) auto
  show d: "sint (Int32Min (M - T) (r - a)) = min (sint M - sint T) (sint r - sint a)"
    by (simp add: sint_Int32Min rem u)
  show "sint (r - Int32Min (M - T) (r - a)) = sint r - min (sint M - sint T) (sint r - sint a)"
    using T lt b d by (subst sint32_sub) auto
  show "sint (T + Int32Min (M - T) (r - a)) = sint T + min (sint M - sint T) (sint r - sint a)"
    using T lt b d by (subst sint32_add) auto
qed

lemma cleanup_valid:
  fixes T M r a :: int32
  assumes "0 \<le>s T" "\<not> M \<le>s T" "a \<le>s r" "r \<noteq> a" "sint r - sint a \<le> 2147483647"
  shows "\<not> r <s r - Int32Min (M - T) (r - a)"
    "0 \<le>s T + Int32Min (M - T) (r - a)" "T + Int32Min (M - T) (r - a) \<le>s M"
proof -
  note step = cleanup_step [OF assms]
  have "sint a < sint r" using step(4) by (simp add: word_sless_alt)
  then show "\<not> r <s r - Int32Min (M - T) (r - a)"
    "0 \<le>s T + Int32Min (M - T) (r - a)" "T + Int32Min (M - T) (r - a) \<le>s M"
    using step(1,2,3) assms(1,2) by (auto simp: word_sle_eq word_sless_alt)
qed

lemma cleanup_lagging:
  fixes T M r a :: int32
  assumes "0 \<le>s T" "\<not> M \<le>s T" "0 \<le>s r" "r <s a"
  shows "r <s r - Int32Min (M - T) (r - a)"
proof -
  have T: "0 \<le> sint T" "sint T < sint M" and r: "0 \<le> sint r" "sint r < sint a"
    using assms by (auto simp: word_sle_eq word_sless_alt)
  have b: "sint M \<le> 2147483647" "sint a \<le> 2147483647" by (rule sint32_bounds)+
  have rem: "sint (M - T) = sint M - sint T"
    using T b by (intro sint32_sub) auto
  have u: "sint (r - a) = sint r - sint a"
    using r b by (intro sint32_sub) auto
  have "Int32Min (M - T) (r - a) = r - a"
    using r T rem u by (simp add: Int32Min_def word_sless_alt)
  then show ?thesis using assms(4) by simp
qed

lemma cleanupLoop_refines:
  assumes "0 \<le>s T" "T = 0 \<or> T \<le>s M"
    and "\<forall>ms\<in>set mss. \<exists>r. ms_Spec_Replicas ms = Some r \<and> 0 \<le>s r \<and>
                 0 \<le>s ms_Status_AvailableReplicas ms"
    and "cleanupLoop st d M T mss = (st', Inr (mss', T'))"
  shows "cleanOldSets (M - T) mss = (mss', T' - T) \<and>
         sint T' = sint T + reductionApplied mss mss' \<and>
         trace st' = trace st @ scaleRequests mss mss'"
  using assms
proof (induction mss arbitrary: st T st' mss' T')
  case Nil
  then show ?case by simp
next
  case (Cons ms rest)
  from Cons.prems(3) have rest:
    "\<forall>ms\<in>set rest. \<exists>r. ms_Spec_Replicas ms = Some r \<and> 0 \<le>s r \<and>
        0 \<le>s ms_Status_AvailableReplicas ms" by simp
  from Cons.prems(3) have nonneg: "0 \<le>s ms_Status_AvailableReplicas ms" by auto
  have budget: "M - T \<le>s 0 \<longleftrightarrow> M \<le>s T"
  proof (cases "T = 0")
    case True
    then show ?thesis by simp
  next
    case False
    with Cons.prems have "0 \<le> sint T" "sint T \<le> sint M" by (auto simp: word_sle_eq)
    moreover have "sint M \<le> 2147483647" by (rule sint32_bounds)
    ultimately have "sint (M - T) = sint M - sint T" by (intro sint32_sub) auto
    then show ?thesis by (auto simp: word_sle_eq)
  qed
  from Cons.prems(4) show ?case
  proof (cases rule: cleanupLoop_Cons_cases)
    case nil
    then show ?thesis by simp
  next
    case (stop r)
    with budget show ?thesis by simp
  next
    case (skip r res0)
    then obtain l where res0: "res0 = Inr (l, T')" and mss': "mss' = ms # l"
      by (auto split: sum.splits)
    from Cons.IH [OF Cons.prems(1,2) rest skip(4) [unfolded res0]] skip(1,2,3) budget mss'
    show ?thesis by (auto simp: replicasInt_def)
  next
    case (invalid r)
    then show ?thesis by simp
  next
    case (refused r e)
    then show ?thesis by simp
  next
    case (scaled r st1 b ms' res0)
    define a where "a = ms_Status_AvailableReplicas ms"
    define delta where "delta = Int32Min (M - T) (r - a)"
    from Cons.prems(3) scaled(1) have r0: "0 \<le>s r" by simp
    have le: "a \<le>s r"
    proof (rule ccontr)
      assume "\<not> a \<le>s r"
      then have "r <s a" by (simp add: word_sle_eq word_sless_alt)
      from cleanup_lagging [OF Cons.prems(1) scaled(2) r0 this] scaled(5)
      show False by (simp add: a_def)
    qed
    have fit: "sint r - sint a \<le> 2147483647"
      using nonneg sint32_bounds(2) [of r] by (simp add: a_def word_sle_eq)
    note step = cleanup_step [OF Cons.prems(1) scaled(2) le scaled(4) [folded a_def] fit,
        folded delta_def]
    note valid = cleanup_valid [OF Cons.prems(1) scaled(2) le scaled(4) [folded a_def] fit,
        folded delta_def]
    have pos: "0 <s r"
      using r0 scaled(3) sint32_eq_0 [of r] by (auto simp: word_sle_eq word_sless_alt)
    obtain l where res0: "res0 = Inr (l, T')" and mss': "mss' = ms' # l"
      using scaled(8) by (auto split: sum.splits)
    have ms': "ms' = ms\<lparr>ms_Spec_Replicas := Some (r - delta)\<rparr>"
      and tr: "trace st1 = trace st @ (if r = r - delta then [] else [ScaleRequest ms (r - delta)])"
      using scaleMachineSet_Inr [OF scaled(1) scaled(6)] by (simp_all add: delta_def a_def)
    have IH: "cleanOldSets (M - (T + delta)) rest = (l, T' - (T + delta))"
      "sint T' = sint (T + delta) + reductionApplied rest l"
      "trace st' = trace st1 @ scaleRequests rest l"
      using Cons.IH [OF valid(2) disjI2 [OF valid(3)] rest
          scaled(7) [folded a_def, folded delta_def, unfolded res0]]
      by simp_all
    have d1: "M - T - delta = M - (T + delta)" by simp
    have d2: "sint r - sint (r - delta) = sint delta" using step by simp
    show ?thesis
      using IH scaled(1,2) budget pos step(4) mss' ms' tr step(1,3) d2
      by (simp add: Let_def a_def [symmetric] delta_def [symmetric] d1 replicasInt_def)
  qed
qed

lemma cleanupLoop_never_invalid:
  assumes "0 \<le>s T"
    and "\<forall>ms\<in>set mss. \<forall>r. ms_Spec_Replicas ms = Some r \<longrightarrow>
            ms_Status_AvailableReplicas ms \<le>s r \<and>
            sint r - sint (ms_Status_AvailableReplicas ms) \<le> 2147483647"
  shows "cleanupLoop st d M T mss \<noteq> (st', Inl (InvalidCleanup nm x y))"
  using assms
proof (induction mss arbitrary: st T)
  case Nil
  then show ?case by simp
next
  case (Cons ms rest)
  show ?case
  proof
    assume "cleanupLoop st d M T (ms # rest) = (st', Inl (InvalidCleanup nm x y))"
    then show False
    proof (cases rule: cleanupLoop_Cons_cases)
      case nil
      then show ?thesis by simp
    next
      case (stop r)
      then show ?thesis by simp
    next
      case (skip r res0)
      with Cons.IH [OF Cons.prems(1), of st] Cons.prems(2) show ?thesis
        by (auto split: sum.splits)
    next
      case (invalid r)
      with Cons.prems(2) have "ms_Status_AvailableReplicas ms \<le>s r"
        "sint r - sint (ms_Status_AvailableReplicas ms) \<le> 2147483647" by simp_all
      from cleanup_valid(1) [OF Cons.prems(1) invalid(2) this(1) invalid(4) this(2)] invalid(5)
      show ?thesis by simp
    next
      case (refused r e)
      with scaleMachineSet_Inl [OF refused(1) refused(6)] show ?thesis by simp
    next
      case (scaled r st1 b' ms' res0)
      with Cons.prems(2) have "ms_Status_AvailableReplicas ms \<le>s r"
        "sint r - sint (ms_Status_AvailableReplicas ms) \<le> 2147483647" by simp_all
      note v = cleanup_valid [OF Cons.prems(1) scaled(2) this(1) scaled(4) this(2)]
      from Cons.IH [OF v(2), of st1] Cons.prems(2) scaled(7,8)
      show ?thesis by (auto split: sum.splits)
    qed
  qed
qed

lemma cleanupLoop_total:
  assumes "0 \<le>s T"
    and "\<forall>ms\<in>set mss. \<exists>r. ms_Spec_Replicas ms = Some r \<and>
            (r = 0 \<or> ms_Status_AvailableReplicas ms \<le>s r \<and>
                     sint r - sint (ms_Status_AvailableReplicas ms) \<le> 2147483647)"
    and "\<forall>f\<in>set (faults st). \<not> f"
  shows "\<exists>st' res. cleanupLoop st d M T mss = (st', Inr res)"
  using assms
proof (induction mss arbitrary: st T)
  case Nil
  then show ?case by simp
next
  case (Cons ms rest)
  obtain st' res where run: "cleanupLoop st d M T (ms # rest) = (st', res)"
    by (cases "cleanupLoop st d M T (ms # rest)")
  from Cons.prems(2) have rest:
    "\<forall>ms\<in>set rest. \<exists>r. ms_Spec_Replicas ms = Some r \<and>
            (r = 0 \<or> ms_Status_AvailableReplicas ms \<le>s r \<and>
                     sint r - sint (ms_Status_AvailableReplicas ms) \<le> 2147483647)"
    by simp
  from run have "\<exists>x. res = Inr x"
  proof (cases rule: cleanupLoop_Cons_cases)
    case nil
    with Cons.prems(2) show ?thesis by simp
  next
    case (stop r)
    then show ?thesis by simp
  next
    case (skip r res0)
    with Cons.IH [OF Cons.prems(1) rest Cons.prems(3)] show ?thesis
      by (auto split: sum.splits)
  next
    case (invalid r)
    with Cons.prems(2) have "ms_Status_AvailableReplicas ms \<le>s r"
      "sint r - sint (ms_Status_AvailableReplicas ms) \<le> 2147483647" by simp_all
    from cleanup_valid(1) [OF Cons.prems(1) invalid(2) this(1) invalid(4) this(2)] invalid(5)
    show ?thesis by simp
  next
    case (refused r e)
    with scaleMachineSet_no_faults [OF refused(1) Cons.prems(3),
        of "r - Int32Min (M - T) (r - ms_Status_AvailableReplicas ms)" d]
    show ?thesis by auto
  next
    case (scaled r st1 b' ms' res0)
    with Cons.prems(2) have "ms_Status_AvailableReplicas ms \<le>s r"
      "sint r - sint (ms_Status_AvailableReplicas ms) \<le> 2147483647" by simp_all
    note v = cleanup_valid [OF Cons.prems(1) scaled(2) this(1) scaled(4) this(2)]
    from scaleMachineSet_no_faults [OF scaled(1) Cons.prems(3),
        of "r - Int32Min (M - T) (r - ms_Status_AvailableReplicas ms)" d] scaled(6)
    have "\<forall>f\<in>set (faults st1). \<not> f" by auto
    from Cons.IH [OF v(2) rest this] scaled(7,8)
    show ?thesis by (auto split: sum.splits)
  qed
  with run show ?case by auto
qed

lemma cleanupLoop_trace:
  assumes "cleanupLoop st d M T mss = (st', res)"
  shows "\<exists>evs. trace st' = trace st @ evs \<and> (\<forall>ev\<in>set evs. reducingRequest ev)"
  using assms
proof (induction mss arbitrary: st T res)
  case Nil
  then show ?case by simp
next
  case (Cons ms rest)
  have one: "\<exists>evs. trace st1 = trace st @ evs \<and> (\<forall>ev\<in>set evs. reducingRequest ev)"
    if "ms_Spec_Replicas ms = Some r" "\<not> r <s n" "scaleMachineSet st ms n d = (st1, x)"
    for r n st1 x
  proof -
    have "n \<le>s r" using that(2) by (simp add: word_sle_eq word_sless_alt)
    then have "reducingRequest (ScaleRequest ms n)"
      using that(1) by (simp add: reducingRequest_def)
    with scaleMachineSet_trace [OF that(1,3)] show ?thesis by auto
  qed
  from Cons.prems show ?case
  proof (cases rule: cleanupLoop_Cons_cases)
    case nil
    then show ?thesis by simp
  next
    case (stop r)
    then show ?thesis by simp
  next
    case (skip r res0)
    with Cons.IH show ?thesis by blast
  next
    case (invalid r)
    then show ?thesis by simp
  next
    case (refused r e)
    with one show ?thesis by blast
  next
    case (scaled r st1 b' ms' res0)
    from one [OF scaled(1,5,6)] obtain evs1 where
      "trace st1 = trace st @ evs1" "\<forall>ev\<in>set evs1. reducingRequest ev" by blast
    moreover from Cons.IH [OF scaled(7)] obtain evs2 where
      "trace st' = trace st1 @ evs2" "\<forall>ev\<in>set evs2. reducingRequest ev" by blast
    ultimately have "trace st' = trace st @ (evs1 @ evs2)"
      "\<forall>ev\<in>set (evs1 @ evs2). reducingRequest ev" by auto
    then show ?thesis by blast
  qed
qed

lemma cleanup_lowers:
  fixes T M r a :: int32
  assumes "0 \<le>s T" "\<not> M \<le>s T" "a \<le>s r" "r \<noteq> a" "sint r - sint a \<le> 2147483647"
  shows "r - Int32Min (M - T) (r - a) <s r"
proof -
  note step = cleanup_step [OF assms]
  have "sint a < sint r" using step(4) by (simp add: word_sless_alt)
  then show ?thesis
    using step(1,2,3) assms(1,2) by (auto simp: word_sle_eq word_sless_alt)
qed

lemma cleanupLoop_lowers:
  assumes "0 \<le>s T"
    and "\<forall>ms\<in>set mss. \<forall>r. ms_Spec_Replicas ms = Some r \<longrightarrow>
            ms_Status_AvailableReplicas ms \<le>s r \<and>
            sint r - sint (ms_Status_AvailableReplicas ms) \<le> 2147483647"
    and "cleanupLoop st d M T mss = (st', res)"
  shows "\<exists>evs. trace st' = trace st @ evs \<and> (\<forall>ev\<in>set evs. loweringRequest ev)"
  using assms
proof (induction mss arbitrary: st T res)
  case Nil
  then show ?case by simp
next
  case (Cons ms rest)
  from Cons.prems(2) have rest: "\<forall>ms\<in>set rest. \<forall>r. ms_Spec_Replicas ms = Some r \<longrightarrow>
            ms_Status_AvailableReplicas ms \<le>s r \<and>
            sint r - sint (ms_Status_AvailableReplicas ms) \<le> 2147483647"
    by simp
  from Cons.prems(3) show ?case
  proof (cases rule: cleanupLoop_Cons_cases)
    case nil
    then show ?thesis by simp
  next
    case (stop r)
    then show ?thesis by simp
  next
    case (skip r res0)
    with Cons.IH [OF Cons.prems(1) rest] show ?thesis by blast
  next
    case (invalid r)
    then show ?thesis by simp
  next
    case (refused r e)
    with Cons.prems(2) have h: "ms_Status_AvailableReplicas ms \<le>s r"
      "sint r - sint (ms_Status_AvailableReplicas ms) \<le> 2147483647" by simp_all
    from cleanup_lowers [OF Cons.prems(1) refused(2) h(1) refused(4) h(2)]
    show ?thesis using lowering_request [OF refused(1) _ refused(6)] by blast
  next
    case (scaled r st1 b' ms' res0)
    with Cons.prems(2) have h: "ms_Status_AvailableReplicas ms \<le>s r"
      "sint r - sint (ms_Status_AvailableReplicas ms) \<le> 2147483647" by simp_all
    note v = cleanup_valid [OF Cons.prems(1) scaled(2) h(1) scaled(4) h(2)]
    from lowering_request [OF scaled(1)
        cleanup_lowers [OF Cons.prems(1) scaled(2) h(1) scaled(4) h(2)] scaled(6)]
    obtain evs1 where
      "trace st1 = trace st @ evs1" "\<forall>ev\<in>set evs1. loweringRequest ev" by blast
    moreover from Cons.IH [OF v(2) rest scaled(7)] obtain evs2 where
      "trace st' = trace st1 @ evs2" "\<forall>ev\<in>set evs2. loweringRequest ev" by blast
    ultimately have "trace st' = trace st @ (evs1 @ evs2)"
      "\<forall>ev\<in>set (evs1 @ evs2). loweringRequest ev" by auto
    then show ?thesis by blast
  qed
qed

section \<open>Evaluation of the planners on concrete sets\<close>

lemmas eval_defs = cleanupUnhealthyReplicas_def scaleDownOldMachineSetsForRollingUpdate_def
  sortByCreationTimestamp_def cleanupLoop_Cons scaleDownLoop_Cons scaleMachineSet_def
  storeRequest_def keepSet_def Int32Min_def word_sle_eq word_sless_alt Let_def quietStore_def

section \<open>The availability-gated scale-down\<close>

text \<open>
  Claim C3, with the proviso that the function returns no error. Let the deployment have
  a replica count. The old sets are gone through in ascending creation order.
  \<open>scaleDownOldMachineSetsForRollingUpdate\<close> scales nothing down when the available
  replicas of all sets are no more than the deployment's count minus \<open>maxUnavailable\<close>.
  Otherwise, whenever it returns without an error, the sets it returns are those of
  \<open>drainOldSets\<close> for the quota \<open>available - minAvailable\<close>: each old set with a
  positive count is reduced by the smaller of its count and the remaining quota, until
  the quota is exhausted; the count it returns is the total reduction applied, and the
  requests it has sent are exactly those reductions. It does return without an error when
  every old set has a replica count that is not negative and the store refuses nothing.
\<close>

theorem scaleDownOldMachineSetsForRollingUpdate_drains:
  assumes "md_Spec_Replicas d = Some replicas"
    and "minAvailable = replicas - maxUnavail d"
    and "available = sum_list (map ms_Status_AvailableReplicas allMSs)"
    and "sorted_old = sortByCreationTimestamp oldMSs"
  shows "sorted (map ms_CreationTimestamp sorted_old) \<and> mset sorted_old = mset oldMSs \<and>
    (available \<le>s minAvailable \<longrightarrow>
       scaleDownOldMachineSetsForRollingUpdate maxUnavail st allMSs oldMSs d =
         (st, Inr (0, oldMSs))) \<and>
    (\<not> available \<le>s minAvailable \<longrightarrow>
       (\<forall>st' count oldMSs'.
           scaleDownOldMachineSetsForRollingUpdate maxUnavail st allMSs oldMSs d =
             (st', Inr (count, oldMSs')) \<longrightarrow>
           drainOldSets (available - minAvailable) sorted_old = (oldMSs', count) \<and>
           sint count = reductionApplied sorted_old oldMSs' \<and>
           trace st' = trace st @ scaleRequests sorted_old oldMSs') \<and>
       ((\<forall>ms\<in>set oldMSs. \<exists>r. ms_Spec_Replicas ms = Some r \<and> 0 \<le>s r) \<and>
        (\<forall>f\<in>set (faults st). \<not> f) \<longrightarrow>
          (\<exists>st' count oldMSs'.
             scaleDownOldMachineSetsForRollingUpdate maxUnavail st allMSs oldMSs d =
               (st', Inr (count, oldMSs')))))"
proof (intro conjI impI allI)
  show "sorted (map ms_CreationTimestamp sorted_old)" "mset sorted_old = mset oldMSs"
    by (simp_all add: assms(4) sortByCreationTimestamp_sorted)
  note unf = scaleDownOld_unfold [OF assms(1), of maxUnavail st allMSs oldMSs,
      unfolded GetAvailable_sum, folded assms(2,3,4)]
  show "scaleDownOldMachineSetsForRollingUpdate maxUnavail st allMSs oldMSs d =
          (st, Inr (0, oldMSs))" if "available \<le>s minAvailable"
    using that unf by simp
  {
    fix st' count oldMSs'
    assume gt: "\<not> available \<le>s minAvailable"
      and run: "scaleDownOldMachineSetsForRollingUpdate maxUnavail st allMSs oldMSs d =
                  (st', Inr (count, oldMSs'))"
    from run gt unf have "scaleDownLoop st d (available - minAvailable) 0 sorted_old =
        (st', Inr (oldMSs', count))"
      by (auto split: prod.splits sum.splits)
    from scaleDownLoop_refines [OF _ _ this]
    show "drainOldSets (available - minAvailable) sorted_old = (oldMSs', count)"
      "sint count = reductionApplied sorted_old oldMSs'"
      "trace st' = trace st @ scaleRequests sorted_old oldMSs'"
      by simp_all
  }
  {
    assume gt: "\<not> available \<le>s minAvailable"
      and wf: "(\<forall>ms\<in>set oldMSs. \<exists>r. ms_Spec_Replicas ms = Some r \<and> 0 \<le>s r) \<and>
               (\<forall>f\<in>set (faults st). \<not> f)"
    then have "\<forall>ms\<in>set sorted_old. \<exists>r. ms_Spec_Replicas ms = Some r \<and> 0 \<le>s r"
      by (simp add: assms(4) sortByCreationTimestamp_sorted)
    from scaleDownLoop_total [OF _ _ this, of 0 "available - minAvailable" st d] wf
    obtain st' res where "scaleDownLoop st d (available - minAvailable) 0 sorted_old = (st', Inr res)"
      by auto
    with gt unf
    show "\<exists>st' count oldMSs'.
             scaleDownOldMachineSetsForRollingUpdate maxUnavail st allMSs oldMSs d =
               (st', Inr (count, oldMSs'))"
      by (cases res) auto
  }
qed

text \<open>Scenario 3: the quota is one, and the old set goes from three replicas to two.\<close>

theorem scaleDownOldMachineSetsForRollingUpdate_drains_witness:
  "snd (scaleDownOldMachineSetsForRollingUpdate (\<lambda>_. 0) quietStore [scenario3_A, scenario3_B]
          [scenario3_A] scenario3_d) = Inr (1, [scenario3_A\<lparr>ms_Spec_Replicas := Some 2\<rparr>]) \<and>
   trace (fst (scaleDownOldMachineSetsForRollingUpdate (\<lambda>_. 0) quietStore
                 [scenario3_A, scenario3_B] [scenario3_A] scenario3_d)) =
     [ScaleRequest scenario3_A 2]"
proof -
  have d: "md_Spec_Replicas scenario3_d = Some 3" by (simp add: scenario3_d_def)
  have min: "(3::int32) = 3 - (\<lambda>_. 0) scenario3_d" by simp
  have av: "(4::int32) = sum_list (map ms_Status_AvailableReplicas [scenario3_A, scenario3_B])"
    by (simp add: scenario3_A_def scenario3_B_def)
  have so: "[scenario3_A] = sortByCreationTimestamp [scenario3_A]"
    by (simp add: sortByCreationTimestamp_def)
  note plan = scaleDownOldMachineSetsForRollingUpdate_drains [OF d min av so, of quietStore]
  have gt: "\<not> (4::int32) \<le>s 3" by (simp add: word_sle_eq)
  have wf: "(\<forall>ms\<in>set [scenario3_A]. \<exists>r. ms_Spec_Replicas ms = Some r \<and> 0 \<le>s r) \<and>
            (\<forall>f\<in>set (faults quietStore). \<not> f)"
    by (simp add: scenario3_A_def quietStore_def word_sle_eq)
  from plan gt wf obtain st' count oldMSs' where run:
    "scaleDownOldMachineSetsForRollingUpdate (\<lambda>_. 0) quietStore [scenario3_A, scenario3_B]
       [scenario3_A] scenario3_d = (st', Inr (count, oldMSs'))" by blast
  with plan gt have "drainOldSets (4 - 3) [scenario3_A] = (oldMSs', count)"
    "trace st' = trace quietStore @ scaleRequests [scenario3_A] oldMSs'" by blast+
  moreover have "drainOldSets (4 - 3) [scenario3_A] =
      ([scenario3_A\<lparr>ms_Spec_Replicas := Some 2\<rparr>], 1)"
    by (simp add: scenario3_A_def Int32Min_def word_sle_eq word_sless_alt)
  ultimately have "oldMSs' = [scenario3_A\<lparr>ms_Spec_Replicas := Some 2\<rparr>]" "count = 1"
    "trace st' = trace quietStore @ scaleRequests [scenario3_A] [scenario3_A\<lparr>ms_Spec_Replicas := Some 2\<rparr>]"
    by simp_all
  with run show ?thesis by (simp add: quietStore_def scenario3_A_def)
qed

text \<open>
  With a set that has no replica count ahead of it, the old set of scenario 3 is not
  reduced, although the quota is one: the function returns the error of line 233, and
  has sent nothing.
\<close>

theorem scaleDownOldMachineSetsForRollingUpdate_nil_counterexample:
  "scaleDownOldMachineSetsForRollingUpdate (\<lambda>_. 0) quietStore [nil_N, scenario3_A, scenario3_B]
     [nil_N, scenario3_A] scenario3_d = (quietStore, Inl (NilMachineSetReplicas ''N'')) \<and>
   drainOldSets 1 [nil_N, scenario3_A] =
     ([nil_N, scenario3_A\<lparr>ms_Spec_Replicas := Some 2\<rparr>], 1)"
  by (simp add: eval_defs scaleDownLoop_Cons_None nil_N_def scenario3_A_def scenario3_B_def
      scenario3_d_def)

section \<open>The unhealthy cleanup\<close>

text \<open>
  Claim C4, with the proviso that the function returns no error, for counts that are not
  negative. Let every old set have a replica count, and let neither this count nor the
  available replicas of the set be negative. The old sets are gone through in ascending
  creation order. For every budget, whenever \<open>cleanupUnhealthyReplicas\<close> returns
  without an error, the sets it returns are those of \<open>cleanOldSets\<close>: each old set with
  more replicas wanted than available, and more than zero, is reduced by the smaller of
  the remaining budget and the difference, the other sets are skipped; the count it
  returns is the total amount cleaned, and the requests it has sent are exactly those
  reductions. It does return without an error when, moreover, every old set has zero
  replicas or no more available than wanted, and the store refuses nothing.
\<close>

theorem cleanupUnhealthyReplicas_cleans:
  assumes "\<forall>ms\<in>set oldMSs. \<exists>r. ms_Spec_Replicas ms = Some r \<and> 0 \<le>s r \<and>
              0 \<le>s ms_Status_AvailableReplicas ms"
    and "sorted_old = sortByCreationTimestamp oldMSs"
  shows "sorted (map ms_CreationTimestamp sorted_old) \<and> mset sorted_old = mset oldMSs \<and>
    (\<forall>st' cleaned oldMSs'.
        cleanupUnhealthyReplicas st oldMSs d maxCleanupCount = (st', Inr (oldMSs', cleaned)) \<longrightarrow>
        cleanOldSets maxCleanupCount sorted_old = (oldMSs', cleaned) \<and>
        sint cleaned = reductionApplied sorted_old oldMSs' \<and>
        trace st' = trace st @ scaleRequests sorted_old oldMSs') \<and>
    ((\<forall>ms\<in>set oldMSs. \<forall>r. ms_Spec_Replicas ms = Some r \<longrightarrow>
          r = 0 \<or> ms_Status_AvailableReplicas ms \<le>s r) \<and>
     (\<forall>f\<in>set (faults st). \<not> f) \<longrightarrow>
       (\<exists>st' res. cleanupUnhealthyReplicas st oldMSs d maxCleanupCount = (st', Inr res)))"
proof (intro conjI impI allI)
  show "sorted (map ms_CreationTimestamp sorted_old)" "mset sorted_old = mset oldMSs"
    by (simp_all add: assms(2) sortByCreationTimestamp_sorted)
  have wf: "\<forall>ms\<in>set sorted_old. \<exists>r. ms_Spec_Replicas ms = Some r \<and> 0 \<le>s r \<and>
              0 \<le>s ms_Status_AvailableReplicas ms"
    using assms(1) by (simp add: assms(2) sortByCreationTimestamp_sorted)
  {
    fix st' cleaned oldMSs'
    assume "cleanupUnhealthyReplicas st oldMSs d maxCleanupCount = (st', Inr (oldMSs', cleaned))"
    then have "cleanupLoop st d maxCleanupCount 0 sorted_old = (st', Inr (oldMSs', cleaned))"
      by (simp add: cleanupUnhealthyReplicas_def assms(2))
    from cleanupLoop_refines [OF _ _ wf this]
    show "cleanOldSets maxCleanupCount sorted_old = (oldMSs', cleaned)"
      "sint cleaned = reductionApplied sorted_old oldMSs'"
      "trace st' = trace st @ scaleRequests sorted_old oldMSs'"
      by simp_all
  }
  {
    assume h: "(\<forall>ms\<in>set oldMSs. \<forall>r. ms_Spec_Replicas ms = Some r \<longrightarrow>
                   r = 0 \<or> ms_Status_AvailableReplicas ms \<le>s r) \<and>
               (\<forall>f\<in>set (faults st). \<not> f)"
    have "\<forall>ms\<in>set sorted_old. \<exists>r. ms_Spec_Replicas ms = Some r \<and>
            (r = 0 \<or> ms_Status_AvailableReplicas ms \<le>s r \<and>
                     sint r - sint (ms_Status_AvailableReplicas ms) \<le> 2147483647)"
    proof
      fix ms assume ms: "ms \<in> set sorted_old"
      then have m: "ms \<in> set oldMSs" by (simp add: assms(2) sortByCreationTimestamp_sorted)
      with wf ms obtain r where r: "ms_Spec_Replicas ms = Some r" "0 \<le>s r"
        "0 \<le>s ms_Status_AvailableReplicas ms" by blast
      from h m r(1) have "r = 0 \<or> ms_Status_AvailableReplicas ms \<le>s r" by blast
      moreover have "sint r - sint (ms_Status_AvailableReplicas ms) \<le> 2147483647"
        using r(3) sint32_bounds(2) [of r] by (simp add: word_sle_eq)
      ultimately show "\<exists>r. ms_Spec_Replicas ms = Some r \<and>
            (r = 0 \<or> ms_Status_AvailableReplicas ms \<le>s r \<and>
                     sint r - sint (ms_Status_AvailableReplicas ms) \<le> 2147483647)"
        using r(1) by blast
    qed
    moreover from h have "\<forall>f\<in>set (faults st). \<not> f" by blast
    ultimately have "\<exists>st' res. cleanupLoop st d maxCleanupCount 0 sorted_old = (st', Inr res)"
      by (intro cleanupLoop_total) simp_all
    then show "\<exists>st' res. cleanupUnhealthyReplicas st oldMSs d maxCleanupCount = (st', Inr res)"
      by (simp add: cleanupUnhealthyReplicas_def assms(2))
  }
qed

text \<open>Scenario 4 after the rollback: with a budget of five, set \<open>B\<close> goes from five to zero.\<close>

theorem cleanupUnhealthyReplicas_cleans_witness:
  "snd (cleanupUnhealthyReplicas quietStore [scenario4_B] scenario4_d 5) =
     Inr ([scenario4_B\<lparr>ms_Spec_Replicas := Some 0\<rparr>], 5) \<and>
   trace (fst (cleanupUnhealthyReplicas quietStore [scenario4_B] scenario4_d 5)) =
     [ScaleRequest scenario4_B 0]"
proof -
  have wf: "\<forall>ms\<in>set [scenario4_B]. \<exists>r. ms_Spec_Replicas ms = Some r \<and> 0 \<le>s r \<and>
              0 \<le>s ms_Status_AvailableReplicas ms"
    by (simp add: scenario4_B_def word_sle_eq)
  have so: "[scenario4_B] = sortByCreationTimestamp [scenario4_B]"
    by (simp add: sortByCreationTimestamp_def)
  note plan = cleanupUnhealthyReplicas_cleans [OF wf so, of quietStore scenario4_d 5]
  have ok: "(\<forall>ms\<in>set [scenario4_B]. \<forall>r. ms_Spec_Replicas ms = Some r \<longrightarrow>
               r = 0 \<or> ms_Status_AvailableReplicas ms \<le>s r) \<and>
            (\<forall>f\<in>set (faults quietStore). \<not> f)"
    by (simp add: scenario4_B_def quietStore_def word_sle_eq)
  from plan ok obtain st' res where
    "cleanupUnhealthyReplicas quietStore [scenario4_B] scenario4_d 5 = (st', Inr res)" by blast
  then obtain oldMSs' cleaned where run:
    "cleanupUnhealthyReplicas quietStore [scenario4_B] scenario4_d 5 = (st', Inr (oldMSs', cleaned))"
    by (cases res) auto
  with plan have "cleanOldSets 5 [scenario4_B] = (oldMSs', cleaned)"
    "trace st' = trace quietStore @ scaleRequests [scenario4_B] oldMSs'" by blast+
  moreover have "cleanOldSets 5 [scenario4_B] = ([scenario4_B\<lparr>ms_Spec_Replicas := Some 0\<rparr>], 5)"
    by (simp add: scenario4_B_def Int32Min_def word_sle_eq word_sless_alt)
  ultimately have "oldMSs' = [scenario4_B\<lparr>ms_Spec_Replicas := Some 0\<rparr>]" "cleaned = 5"
    "trace st' = trace quietStore @ scaleRequests [scenario4_B] [scenario4_B\<lparr>ms_Spec_Replicas := Some 0\<rparr>]"
    by simp_all
  with run show ?thesis by (simp add: quietStore_def scenario4_B_def)
qed

text \<open>
  Behind a set with more replicas available than wanted, set \<open>B\<close> is not reduced,
  although it has five replicas, none available, and the budget is four: the function
  returns the error of line 195, and has sent nothing.
\<close>

theorem cleanupUnhealthyReplicas_lagging_counterexample:
  "cleanupUnhealthyReplicas quietStore [lagging_A, scenario4_B] scenario4_d 4 =
     (quietStore, Inl (InvalidCleanup ''A'' 2 3)) \<and>
   cleanOldSets 4 [lagging_A, scenario4_B] =
     ([lagging_A, scenario4_B\<lparr>ms_Spec_Replicas := Some 1\<rparr>], 4)"
  by (simp add: eval_defs lagging_A_def scenario4_B_def)

section \<open>The invalid requests\<close>

text \<open>
  Claim C10, with the conditions under which it holds. The error branch of line 248 of
  \<open>scaleDownOldMachineSetsForRollingUpdate\<close> is not taken when no old set has a negative
  replica count. The error branch of line 195 of \<open>cleanupUnhealthyReplicas\<close> is not
  taken when every old set has no more replicas available than wanted and the difference
  of the two counts fits \<^verbatim>\<open>int32\<close>. Under these conditions every count that passes the
  check, and is requested from the store, is strictly below the count the set has.
\<close>

theorem invalid_request_unreachable:
  "((\<forall>ms\<in>set oldMSs. \<forall>r. ms_Spec_Replicas ms = Some r \<longrightarrow> 0 \<le>s r) \<longrightarrow>
      scaleDownOldMachineSetsForRollingUpdate maxUnavail st allMSs oldMSs d \<noteq>
        (st', Inl (InvalidScaleDown nm x y)) \<and>
      (\<exists>evs. trace (fst (scaleDownOldMachineSetsForRollingUpdate maxUnavail st allMSs oldMSs d)) =
                trace st @ evs \<and> (\<forall>ev\<in>set evs. loweringRequest ev))) \<and>
   ((\<forall>ms\<in>set oldMSs. \<forall>r. ms_Spec_Replicas ms = Some r \<longrightarrow>
        ms_Status_AvailableReplicas ms \<le>s r \<and>
        sint r - sint (ms_Status_AvailableReplicas ms) \<le> 2147483647) \<longrightarrow>
      cleanupUnhealthyReplicas st oldMSs d maxCleanupCount \<noteq>
        (st', Inl (InvalidCleanup nm x y)) \<and>
      (\<exists>evs. trace (fst (cleanupUnhealthyReplicas st oldMSs d maxCleanupCount)) =
                trace st @ evs \<and> (\<forall>ev\<in>set evs. loweringRequest ev)))"
proof (intro conjI impI)
  assume "\<forall>ms\<in>set oldMSs. \<forall>r. ms_Spec_Replicas ms = Some r \<longrightarrow> 0 \<le>s r"
  then have wf: "\<forall>ms\<in>set (sortByCreationTimestamp oldMSs).
                   \<forall>r. ms_Spec_Replicas ms = Some r \<longrightarrow> 0 \<le>s r"
    by (simp add: sortByCreationTimestamp_sorted)
  show "scaleDownOldMachineSetsForRollingUpdate maxUnavail st allMSs oldMSs d \<noteq>
          (st', Inl (InvalidScaleDown nm x y))"
  proof (cases "md_Spec_Replicas d")
    case None
    then show ?thesis by (simp add: scaleDownOldMachineSetsForRollingUpdate_def)
  next
    case (Some replicas)
    from scaleDownLoop_never_invalid [OF _ _ wf, of 0 _ st d st' nm x y]
    show ?thesis
      by (auto simp: scaleDownOld_unfold [OF Some] split: prod.splits sum.splits)
  qed
  show "\<exists>evs. trace (fst (scaleDownOldMachineSetsForRollingUpdate maxUnavail st allMSs oldMSs d)) =
                trace st @ evs \<and> (\<forall>ev\<in>set evs. loweringRequest ev)"
  proof (cases "md_Spec_Replicas d")
    case None
    then show ?thesis by (simp add: scaleDownOldMachineSetsForRollingUpdate_def)
  next
    case (Some replicas)
    define Q where "Q = GetAvailableReplicaCountForMachineSets allMSs - (replicas - maxUnavail d)"
    obtain st1 r1 where l: "scaleDownLoop st d Q 0 (sortByCreationTimestamp oldMSs) = (st1, r1)"
      by (cases "scaleDownLoop st d Q 0 (sortByCreationTimestamp oldMSs)")
    from scaleDownLoop_lowers [OF _ _ wf l]
    have low: "\<exists>evs. trace st1 = trace st @ evs \<and> (\<forall>ev\<in>set evs. loweringRequest ev)" by simp
    have "fst (scaleDownOldMachineSetsForRollingUpdate maxUnavail st allMSs oldMSs d) = st \<or>
          fst (scaleDownOldMachineSetsForRollingUpdate maxUnavail st allMSs oldMSs d) = st1"
      using l by (auto simp: scaleDownOld_unfold [OF Some] Q_def [symmetric] split: sum.splits)
    with low show ?thesis by auto
  qed
next
  assume "\<forall>ms\<in>set oldMSs. \<forall>r. ms_Spec_Replicas ms = Some r \<longrightarrow>
        ms_Status_AvailableReplicas ms \<le>s r \<and>
        sint r - sint (ms_Status_AvailableReplicas ms) \<le> 2147483647"
  then have wf: "\<forall>ms\<in>set (sortByCreationTimestamp oldMSs).
      \<forall>r. ms_Spec_Replicas ms = Some r \<longrightarrow>
        ms_Status_AvailableReplicas ms \<le>s r \<and>
        sint r - sint (ms_Status_AvailableReplicas ms) \<le> 2147483647"
    by (simp add: sortByCreationTimestamp_sorted)
  from cleanupLoop_never_invalid [OF _ wf, of 0 st d maxCleanupCount st' nm x y]
  show "cleanupUnhealthyReplicas st oldMSs d maxCleanupCount \<noteq>
          (st', Inl (InvalidCleanup nm x y))"
    by (simp add: cleanupUnhealthyReplicas_def)
  obtain st1 r1 where l: "cleanupLoop st d maxCleanupCount 0 (sortByCreationTimestamp oldMSs) = (st1, r1)"
    by (cases "cleanupLoop st d maxCleanupCount 0 (sortByCreationTimestamp oldMSs)")
  from cleanupLoop_lowers [OF _ wf l] l
  show "\<exists>evs. trace (fst (cleanupUnhealthyReplicas st oldMSs d maxCleanupCount)) =
                trace st @ evs \<and> (\<forall>ev\<in>set evs. loweringRequest ev)"
    by (simp add: cleanupUnhealthyReplicas_def)
qed

theorem invalid_request_unreachable_witness:
  "(\<forall>st' nm x y.
      scaleDownOldMachineSetsForRollingUpdate (\<lambda>_. 0) quietStore [scenario3_A, scenario3_B]
        [scenario3_A] scenario3_d \<noteq> (st', Inl (InvalidScaleDown nm x y))) \<and>
   (\<forall>st' nm x y.
      cleanupUnhealthyReplicas quietStore [scenario4_B] scenario4_d 5 \<noteq>
        (st', Inl (InvalidCleanup nm x y)))"
proof -
  have a: "\<forall>ms\<in>set [scenario3_A]. \<forall>r. ms_Spec_Replicas ms = Some r \<longrightarrow> 0 \<le>s r"
    by (simp add: scenario3_A_def word_sle_eq)
  have b: "\<forall>ms\<in>set [scenario4_B]. \<forall>r. ms_Spec_Replicas ms = Some r \<longrightarrow>
        ms_Status_AvailableReplicas ms \<le>s r \<and>
        sint r - sint (ms_Status_AvailableReplicas ms) \<le> 2147483647"
    by (simp add: scenario4_B_def word_sle_eq)
  from a b show ?thesis
    using invalid_request_unreachable [where oldMSs = "[scenario3_A]" and maxUnavail = "\<lambda>_. 0" and st = quietStore
        and allMSs = "[scenario3_A, scenario3_B]" and d = scenario3_d]
      invalid_request_unreachable [where oldMSs = "[scenario4_B]" and st = quietStore and d = scenario4_d
        and maxCleanupCount = 5]
    by blast
qed

text \<open>
  The branch of line 248 is taken on a set with a negative replica count. The branch of
  line 195 is taken on sets that have no more replicas available than wanted, when the
  unhealthy count of an earlier set has wrapped around.
\<close>

theorem invalid_request_reached_counterexample:
  "scaleDownOldMachineSetsForRollingUpdate (\<lambda>_. 0) quietStore [negative_A] [negative_A] one_d =
     (quietStore, Inl (InvalidScaleDown ''A'' (- 1) 0)) \<and>
   ms_Spec_Replicas wrap_X = Some 1 \<and> ms_Status_AvailableReplicas wrap_X \<le>s 1 \<and>
   ms_Spec_Replicas wrap_Y = Some 5 \<and> ms_Status_AvailableReplicas wrap_Y \<le>s 5 \<and>
   cleanupUnhealthyReplicas quietStore [wrap_X, wrap_Y] one_d 2147483647 =
     (\<lparr>trace = [ScaleRequest wrap_X (- 2147483648)], faults = []\<rparr>,
      Inl (InvalidCleanup ''Y'' 5 7))"
  by (simp add: eval_defs negative_A_def one_d_def wrap_X_def wrap_Y_def)

section \<open>The scale-down planner never scales an old set up\<close>

lemma reconcileOld_unfold:
  assumes "md_Spec_Replicas d = Some replicas" "ms_Spec_Replicas newMS = Some newReplicas"
    "GetReplicaCountForMachineSets oldMSs = Inr oldCount" "oldCount \<noteq> 0"
    "GetReplicaCountForMachineSets allMSs = Inr allCount"
    "\<not> allCount - (replicas - maxUnavail d) - (newReplicas - ms_Status_AvailableReplicas newMS) \<le>s 0"
  shows "reconcileOldMachineSets maxUnavail st allMSs oldMSs newMS d =
    (case cleanupUnhealthyReplicas st oldMSs d
            (allCount - (replicas - maxUnavail d) - (newReplicas - ms_Status_AvailableReplicas newMS)) of
       (st1, Inl err) \<Rightarrow> (st1, Inr [])
     | (st1, Inr (oldMSs1, cleanupCount)) \<Rightarrow>
         (case scaleDownOldMachineSetsForRollingUpdate maxUnavail st1
                 (oldMSs1 @ [newMS]) oldMSs1 d of
            (st2, Inl err) \<Rightarrow> (st2, Inl err)
          | (st2, Inr (scaledDownCount, oldMSs2)) \<Rightarrow> (st2, Inr oldMSs2)))"
  using assms by (simp add: reconcileOldMachineSets_def Let_def)

lemma reconcileOld_early:
  assumes "md_Spec_Replicas d = None \<or> ms_Spec_Replicas newMS = None \<or>
    (\<exists>e. GetReplicaCountForMachineSets oldMSs = Inl e) \<or>
    GetReplicaCountForMachineSets oldMSs = Inr 0 \<or>
    (\<exists>e. GetReplicaCountForMachineSets allMSs = Inl e) \<or>
    (\<exists>replicas newReplicas allCount. md_Spec_Replicas d = Some replicas \<and>
        ms_Spec_Replicas newMS = Some newReplicas \<and>
        GetReplicaCountForMachineSets allMSs = Inr allCount \<and>
        allCount - (replicas - maxUnavail d) - (newReplicas - ms_Status_AvailableReplicas newMS) \<le>s 0)"
  shows "fst (reconcileOldMachineSets maxUnavail st allMSs oldMSs newMS d) = st"
  using assms
  by (auto simp: reconcileOldMachineSets_def Let_def split: option.splits sum.splits)

lemma cleanupUnhealthy_trace:
  assumes "cleanupUnhealthyReplicas st oldMSs d M = (st', res)"
  shows "\<exists>evs. trace st' = trace st @ evs \<and> (\<forall>ev\<in>set evs. reducingRequest ev)"
  using assms cleanupLoop_trace by (simp add: cleanupUnhealthyReplicas_def)

text \<open>
  The ways through \<open>reconcileOldMachineSets\<close>: it returns at once, or after the cleanup,
  or after the cleanup and the scale-down.
\<close>

lemma reconcileOld_route:
  "fst (reconcileOldMachineSets maxUnavail st allMSs oldMSs newMS d) = st \<or>
   (\<exists>M st1 r1. cleanupUnhealthyReplicas st oldMSs d M = (st1, r1) \<and>
      (fst (reconcileOldMachineSets maxUnavail st allMSs oldMSs newMS d) = st1 \<or>
       (\<exists>oldMSs1 st2 r2.
           scaleDownOldMachineSetsForRollingUpdate maxUnavail st1 (oldMSs1 @ [newMS]) oldMSs1 d =
             (st2, r2) \<and>
           fst (reconcileOldMachineSets maxUnavail st allMSs oldMSs newMS d) = st2)))"
proof (cases "md_Spec_Replicas d = None \<or> ms_Spec_Replicas newMS = None \<or>
    (\<exists>e. GetReplicaCountForMachineSets oldMSs = Inl e) \<or>
    GetReplicaCountForMachineSets oldMSs = Inr 0 \<or>
    (\<exists>e. GetReplicaCountForMachineSets allMSs = Inl e) \<or>
    (\<exists>replicas newReplicas allCount. md_Spec_Replicas d = Some replicas \<and>
        ms_Spec_Replicas newMS = Some newReplicas \<and>
        GetReplicaCountForMachineSets allMSs = Inr allCount \<and>
        allCount - (replicas - maxUnavail d) - (newReplicas - ms_Status_AvailableReplicas newMS) \<le>s 0)")
  case True
  then have "fst (reconcileOldMachineSets maxUnavail st allMSs oldMSs newMS d) = st"
    by (rule reconcileOld_early)
  then show ?thesis by simp
next
  case False
  then obtain replicas newReplicas oldCount allCount where
    h: "md_Spec_Replicas d = Some replicas" "ms_Spec_Replicas newMS = Some newReplicas"
    "GetReplicaCountForMachineSets oldMSs = Inr oldCount" "oldCount \<noteq> 0"
    "GetReplicaCountForMachineSets allMSs = Inr allCount"
    "\<not> allCount - (replicas - maxUnavail d) - (newReplicas - ms_Status_AvailableReplicas newMS) \<le>s 0"
    by (cases "md_Spec_Replicas d"; cases "ms_Spec_Replicas newMS";
        cases "GetReplicaCountForMachineSets oldMSs"; cases "GetReplicaCountForMachineSets allMSs")
       auto
  define M where "M = allCount - (replicas - maxUnavail d) - (newReplicas - ms_Status_AvailableReplicas newMS)"
  note unf = reconcileOld_unfold [where maxUnavail = maxUnavail and st = st, OF h, folded M_def]
  obtain st1 r1 where c: "cleanupUnhealthyReplicas st oldMSs d M = (st1, r1)"
    by (cases "cleanupUnhealthyReplicas st oldMSs d M")
  have "fst (reconcileOldMachineSets maxUnavail st allMSs oldMSs newMS d) = st1 \<or>
       (\<exists>oldMSs1 st2 r2.
           scaleDownOldMachineSetsForRollingUpdate maxUnavail st1 (oldMSs1 @ [newMS]) oldMSs1 d =
             (st2, r2) \<and>
           fst (reconcileOldMachineSets maxUnavail st allMSs oldMSs newMS d) = st2)"
  proof (cases r1)
    case (Inl e)
    with unf c show ?thesis by simp
  next
    case (Inr p)
    obtain oldMSs1 n where p: "p = (oldMSs1, n)" by (cases p)
    obtain st2 r2 where s: "scaleDownOldMachineSetsForRollingUpdate maxUnavail st1
                 (oldMSs1 @ [newMS]) oldMSs1 d = (st2, r2)"
      by (cases "scaleDownOldMachineSetsForRollingUpdate maxUnavail st1
                 (oldMSs1 @ [newMS]) oldMSs1 d")
    have "fst (reconcileOldMachineSets maxUnavail st allMSs oldMSs newMS d) = st2"
      using unf c Inr p s by (auto split: sum.splits)
    with s show ?thesis by blast
  qed
  with c show ?thesis by blast
qed

text \<open>
  Replaying one run of requests and then another is replaying the two in a row; the
  sets never gain replicas in a replay, and they keep their creation times, hence their
  order.
\<close>

lemma replay_append:
  "replay sets fs js1 evs1 = Some sets1 \<Longrightarrow>
   replay sets fs (js1 @ js2) (evs1 @ evs2) = replay sets1 (drop (length evs1) fs) js2 evs2"
proof (induction sets fs js1 evs1 rule: replay.induct)
  case (1 sets fs)
  then show ?case by simp
next
  case (2 sets fs j js ms n evs)
  then show ?case by (cases fs) (auto simp: drop_Suc split: if_splits)
qed simp_all

lemma sum_list_map_update:
  fixes f :: "'a \<Rightarrow> int"
  shows "j < length xs \<Longrightarrow>
         sum_list (map f (xs[j := y])) = sum_list (map f xs) - f (xs ! j) + f y"
proof (induction xs arbitrary: j)
  case Nil
  then show ?case by simp
next
  case (Cons x xs)
  then show ?case by (cases j) simp_all
qed

lemma replay_total:
  "replay sets fs js evs = Some sets' \<Longrightarrow>
   sum_list (map replicasInt sets') \<le> sum_list (map replicasInt sets)"
proof (induction sets fs js evs rule: replay.induct)
  case (1 sets fs)
  then show ?case by simp
next
  case (2 sets fs j js ms n evs)
  from "2.prems" have c: "j < length sets" "sets ! j = ms" "reducingRequest (ScaleRequest ms n)"
    by (simp_all split: if_splits)
  then obtain r where r: "ms_Spec_Replicas ms = Some r" "n \<le>s r"
    by (auto simp: reducingRequest_def split: option.splits)
  have le: "replicasInt (ms\<lparr>ms_Spec_Replicas := Some n\<rparr>) \<le> replicasInt (sets ! j)"
    using c(2) r by (simp add: replicasInt_def word_sle_eq)
  have "sum_list (map replicasInt (sets[j := ms\<lparr>ms_Spec_Replicas := Some n\<rparr>])) \<le>
        sum_list (map replicasInt sets)"
    using le by (simp add: sum_list_map_update [OF c(1)])
  moreover from "2.prems" "2.IH" c
  have "sum_list (map replicasInt sets') \<le>
        sum_list (map replicasInt
          (if fs \<noteq> [] \<and> hd fs then sets else sets[j := ms\<lparr>ms_Spec_Replicas := Some n\<rparr>]))"
    by simp
  ultimately show ?case by (simp split: if_splits)
qed simp_all

lemma replay_timestamps:
  "replay sets fs js evs = Some sets' \<Longrightarrow>
   map ms_CreationTimestamp sets' = map ms_CreationTimestamp sets"
proof (induction sets fs js evs rule: replay.induct)
  case (1 sets fs)
  then show ?case by simp
next
  case (2 sets fs j js ms n evs)
  from "2.prems" have c: "j < length sets" "sets ! j = ms" "reducingRequest (ScaleRequest ms n)"
    by (simp_all split: if_splits)
  have "map ms_CreationTimestamp (sets[j := ms\<lparr>ms_Spec_Replicas := Some n\<rparr>]) =
        map ms_CreationTimestamp sets"
    using c(1,2) by (simp add: map_update list_update_same_conv)
  moreover from "2.prems" "2.IH" c
  have "map ms_CreationTimestamp sets' = map ms_CreationTimestamp
          (if fs \<noteq> [] \<and> hd fs then sets else sets[j := ms\<lparr>ms_Spec_Replicas := Some n\<rparr>])"
    by simp
  ultimately show ?case by (simp split: if_splits)
qed simp_all

text \<open>One call of the set mutator, seen from the sets.\<close>

lemma scaleMachineSet_replay:
  assumes "ms_Spec_Replicas ms = Some r" "\<not> r <s n" "scaleMachineSet st ms n d = (st', res)"
  shows "\<exists>evs js. trace st' = trace st @ evs \<and> faults st' = drop (length evs) (faults st) \<and>
           replay (pre @ ms # post) (faults st) js evs =
             Some (pre @ (case res of Inr (b, ms') \<Rightarrow> ms' | Inl e \<Rightarrow> ms) # post)"
proof (cases "r = n")
  case True
  with assms have "st' = st" "res = Inr (False, ms)" by (simp_all add: scaleMachineSet_Some)
  then have "trace st' = trace st @ [] \<and> faults st' = drop (length ([]::event list)) (faults st) \<and>
           replay (pre @ ms # post) (faults st) [] [] =
             Some (pre @ (case res of Inr (b, ms') \<Rightarrow> ms' | Inl e \<Rightarrow> ms) # post)" by simp
  then show ?thesis by blast
next
  case False
  have red: "reducingRequest (ScaleRequest ms n)"
    using assms(1,2) by (simp add: reducingRequest_def word_sle_eq word_sless_alt)
  have at: "length pre < length (pre @ ms # post)" "(pre @ ms # post) ! length pre = ms" by simp_all
  have "trace st' = trace st @ [ScaleRequest ms n] \<and>
        faults st' = drop (length [ScaleRequest ms n]) (faults st) \<and>
        replay (pre @ ms # post) (faults st) [length pre] [ScaleRequest ms n] =
             Some (pre @ (case res of Inr (b, ms') \<Rightarrow> ms' | Inl e \<Rightarrow> ms) # post)"
    using assms(3) False red at
    by (cases "faults st")
       (auto simp: scaleMachineSet_Some [OF assms(1)] storeRequest_def split: if_splits)
  then show ?thesis by blast
qed

text \<open>
  The requests of a loop, replayed on the sets from where the loop stands (\<open>pre\<close> are
  the sets that it has passed), give the sets that the loop returns.
\<close>

lemma cleanupLoop_replay:
  assumes "cleanupLoop st d M T xs = (st', res)"
  shows "\<exists>evs js ys. trace st' = trace st @ evs \<and> faults st' = drop (length evs) (faults st) \<and>
           replay (pre @ xs) (faults st) js evs = Some (pre @ ys) \<and>
           (\<forall>l n. res = Inr (l, n) \<longrightarrow> l = ys)"
  using assms
proof (induction xs arbitrary: st T pre st' res)
  case Nil
  then have "trace st' = trace st @ [] \<and> faults st' = drop (length ([]::event list)) (faults st) \<and>
           replay (pre @ []) (faults st) [] [] = Some (pre @ []) \<and>
           (\<forall>l n. res = Inr (l, n) \<longrightarrow> l = [])" by auto
  then show ?case by blast
next
  case (Cons ms rest)
  have same: "\<exists>evs js ys. trace st' = trace st @ evs \<and>
           faults st' = drop (length evs) (faults st) \<and>
           replay (pre @ ms # rest) (faults st) js evs = Some (pre @ ys) \<and>
           (\<forall>l n. res = Inr (l, n) \<longrightarrow> l = ys)"
    if "st' = st" "\<forall>l n. res = Inr (l, n) \<longrightarrow> l = ms # rest"
  proof -
    from that have "trace st' = trace st @ [] \<and>
           faults st' = drop (length ([]::event list)) (faults st) \<and>
           replay (pre @ ms # rest) (faults st) [] [] = Some (pre @ ms # rest) \<and>
           (\<forall>l n. res = Inr (l, n) \<longrightarrow> l = ms # rest)" by simp
    then show ?thesis by blast
  qed
  from Cons.prems show ?case
  proof (cases rule: cleanupLoop_Cons_cases)
    case nil
    then show ?thesis by (intro same) simp_all
  next
    case (stop r)
    then show ?thesis by (intro same) simp_all
  next
    case (skip r res0)
    from Cons.IH [OF skip(4), of "pre @ [ms]"] obtain evs js ys where
      h: "trace st' = trace st @ evs" "faults st' = drop (length evs) (faults st)"
      "replay (pre @ ms # rest) (faults st) js evs = Some (pre @ ms # ys)"
      "\<forall>l n. res0 = Inr (l, n) \<longrightarrow> l = ys" by auto
    from h(4) skip have "\<forall>l n. res = Inr (l, n) \<longrightarrow> l = ms # ys"
      by (auto split: sum.splits)
    with h(1,2,3) show ?thesis by blast
  next
    case (invalid r)
    then show ?thesis by (intro same) simp_all
  next
    case (refused r e)
    from scaleMachineSet_replay [OF refused(1) refused(5) refused(6), of pre rest]
    obtain evs js where "trace st' = trace st @ evs"
      "faults st' = drop (length evs) (faults st)"
      "replay (pre @ ms # rest) (faults st) js evs = Some (pre @ ms # rest)" by auto
    moreover from refused have "\<forall>l n. res = Inr (l, n) \<longrightarrow> l = ms # rest" by simp
    ultimately show ?thesis by blast
  next
    case (scaled r st1 b ms' res0)
    from scaleMachineSet_replay [OF scaled(1) scaled(5) scaled(6), of pre rest]
    obtain evs1 js1 where a: "trace st1 = trace st @ evs1"
      "faults st1 = drop (length evs1) (faults st)"
      "replay (pre @ ms # rest) (faults st) js1 evs1 = Some (pre @ ms' # rest)" by auto
    from Cons.IH [OF scaled(7), of "pre @ [ms']"] obtain evs2 js2 ys where
      b: "trace st' = trace st1 @ evs2" "faults st' = drop (length evs2) (faults st1)"
      "replay (pre @ ms' # rest) (faults st1) js2 evs2 = Some (pre @ ms' # ys)"
      "\<forall>l n. res0 = Inr (l, n) \<longrightarrow> l = ys" by auto
    have "trace st' = trace st @ (evs1 @ evs2)" using a(1) b(1) by simp
    moreover have "faults st' = drop (length (evs1 @ evs2)) (faults st)"
      using a(2) b(2) by (simp add: add.commute)
    moreover have "replay (pre @ ms # rest) (faults st) (js1 @ js2) (evs1 @ evs2) =
        Some (pre @ ms' # ys)"
      using replay_append [OF a(3), of js2 evs2] b(3) a(2) by simp
    moreover from b(4) scaled have "\<forall>l n. res = Inr (l, n) \<longrightarrow> l = ms' # ys"
      by (auto split: sum.splits)
    ultimately show ?thesis by blast
  qed
qed

lemma scaleDownLoop_replay:
  assumes "scaleDownLoop st d Q T xs = (st', res)"
  shows "\<exists>evs js ys. trace st' = trace st @ evs \<and> faults st' = drop (length evs) (faults st) \<and>
           replay (pre @ xs) (faults st) js evs = Some (pre @ ys) \<and>
           (\<forall>l n. res = Inr (l, n) \<longrightarrow> l = ys)"
  using assms
proof (induction xs arbitrary: st T pre st' res)
  case Nil
  then have "trace st' = trace st @ [] \<and> faults st' = drop (length ([]::event list)) (faults st) \<and>
           replay (pre @ []) (faults st) [] [] = Some (pre @ []) \<and>
           (\<forall>l n. res = Inr (l, n) \<longrightarrow> l = [])" by auto
  then show ?case by blast
next
  case (Cons ms rest)
  have same: "\<exists>evs js ys. trace st' = trace st @ evs \<and>
           faults st' = drop (length evs) (faults st) \<and>
           replay (pre @ ms # rest) (faults st) js evs = Some (pre @ ys) \<and>
           (\<forall>l n. res = Inr (l, n) \<longrightarrow> l = ys)"
    if "st' = st" "\<forall>l n. res = Inr (l, n) \<longrightarrow> l = ms # rest"
  proof -
    from that have "trace st' = trace st @ [] \<and>
           faults st' = drop (length ([]::event list)) (faults st) \<and>
           replay (pre @ ms # rest) (faults st) [] [] = Some (pre @ ms # rest) \<and>
           (\<forall>l n. res = Inr (l, n) \<longrightarrow> l = ms # rest)" by simp
    then show ?thesis by blast
  qed
  from Cons.prems show ?case
  proof (cases rule: scaleDownLoop_Cons_cases)
    case nil
    then show ?thesis by (intro same) simp_all
  next
    case (stop r)
    then show ?thesis by (intro same) simp_all
  next
    case (skip res0)
    from Cons.IH [OF skip(3), of "pre @ [ms]"] obtain evs js ys where
      h: "trace st' = trace st @ evs" "faults st' = drop (length evs) (faults st)"
      "replay (pre @ ms # rest) (faults st) js evs = Some (pre @ ms # ys)"
      "\<forall>l n. res0 = Inr (l, n) \<longrightarrow> l = ys" by auto
    from h(4) skip have "\<forall>l n. res = Inr (l, n) \<longrightarrow> l = ms # ys"
      by (auto split: sum.splits)
    with h(1,2,3) show ?thesis by blast
  next
    case (invalid r)
    then show ?thesis by (intro same) simp_all
  next
    case (refused r e)
    from scaleMachineSet_replay [OF refused(1) refused(4) refused(5), of pre rest]
    obtain evs js where "trace st' = trace st @ evs"
      "faults st' = drop (length evs) (faults st)"
      "replay (pre @ ms # rest) (faults st) js evs = Some (pre @ ms # rest)" by auto
    moreover from refused have "\<forall>l n. res = Inr (l, n) \<longrightarrow> l = ms # rest" by simp
    ultimately show ?thesis by blast
  next
    case (scaled r st1 b ms' res0)
    from scaleMachineSet_replay [OF scaled(1) scaled(4) scaled(5), of pre rest]
    obtain evs1 js1 where a: "trace st1 = trace st @ evs1"
      "faults st1 = drop (length evs1) (faults st)"
      "replay (pre @ ms # rest) (faults st) js1 evs1 = Some (pre @ ms' # rest)" by auto
    from Cons.IH [OF scaled(6), of "pre @ [ms']"] obtain evs2 js2 ys where
      b: "trace st' = trace st1 @ evs2" "faults st' = drop (length evs2) (faults st1)"
      "replay (pre @ ms' # rest) (faults st1) js2 evs2 = Some (pre @ ms' # ys)"
      "\<forall>l n. res0 = Inr (l, n) \<longrightarrow> l = ys" by auto
    have "trace st' = trace st @ (evs1 @ evs2)" using a(1) b(1) by simp
    moreover have "faults st' = drop (length (evs1 @ evs2)) (faults st)"
      using a(2) b(2) by (simp add: add.commute)
    moreover have "replay (pre @ ms # rest) (faults st) (js1 @ js2) (evs1 @ evs2) =
        Some (pre @ ms' # ys)"
      using replay_append [OF a(3), of js2 evs2] b(3) a(2) by simp
    moreover from b(4) scaled have "\<forall>l n. res = Inr (l, n) \<longrightarrow> l = ms' # ys"
      by (auto split: sum.splits)
    ultimately show ?thesis by blast
  qed
qed

lemma cleanupUnhealthy_replay:
  assumes "cleanupUnhealthyReplicas st oldMSs d M = (st', res)"
  shows "\<exists>evs js ys. trace st' = trace st @ evs \<and> faults st' = drop (length evs) (faults st) \<and>
           replay (sortByCreationTimestamp oldMSs) (faults st) js evs = Some ys \<and>
           (\<forall>l n. res = Inr (l, n) \<longrightarrow> l = ys)"
  using cleanupLoop_replay [of st d M 0 "sortByCreationTimestamp oldMSs" st' res "[]"] assms
  by (simp add: cleanupUnhealthyReplicas_def)

text \<open>
  The second phase sorts the sets again; on sets that are in creation order already, as
  the first phase leaves them, that changes nothing.
\<close>

lemma scaleDownOld_replay:
  assumes "scaleDownOldMachineSetsForRollingUpdate maxUnavail st allMSs oldMSs d = (st', res)"
    and "sorted (map ms_CreationTimestamp oldMSs)"
  shows "\<exists>evs js ys. trace st' = trace st @ evs \<and>
           replay oldMSs (faults st) js evs = Some ys \<and>
           (\<forall>n l. res = Inr (n, l) \<longrightarrow> l = ys)"
proof -
  have same: ?thesis if "st' = st" "\<forall>n l. res = Inr (n, l) \<longrightarrow> l = oldMSs"
  proof -
    from that have "trace st' = trace st @ [] \<and> replay oldMSs (faults st) [] [] = Some oldMSs \<and>
           (\<forall>n l. res = Inr (n, l) \<longrightarrow> l = oldMSs)" by simp
    then show ?thesis by blast
  qed
  show ?thesis
  proof (cases "md_Spec_Replicas d")
    case None
    with assms(1) show ?thesis
      by (intro same) (auto simp: scaleDownOldMachineSetsForRollingUpdate_def)
  next
    case (Some replicas)
    show ?thesis
    proof (cases "GetAvailableReplicaCountForMachineSets allMSs \<le>s replicas - maxUnavail d")
      case True
      with assms(1) show ?thesis
        by (intro same) (auto simp: scaleDownOld_unfold [OF Some])
    next
      case False
      have srt: "sortByCreationTimestamp oldMSs = oldMSs"
        using assms(2) by (simp add: sortByCreationTimestamp_def sort_key_id_if_sorted)
      obtain st1 r1 where l: "scaleDownLoop st d
          (GetAvailableReplicaCountForMachineSets allMSs - (replicas - maxUnavail d)) 0
          oldMSs = (st1, r1)"
        by (cases "scaleDownLoop st d
          (GetAvailableReplicaCountForMachineSets allMSs - (replicas - maxUnavail d)) 0 oldMSs")
      with assms(1) False have r: "st' = st1"
        "res = (case r1 of Inl err \<Rightarrow> Inl err | Inr (l, n) \<Rightarrow> Inr (n, l))"
        by (auto simp: scaleDownOld_unfold [OF Some] srt split: sum.splits)
      from scaleDownLoop_replay [OF l, of "[]"] obtain evs js ys where
        h: "trace st1 = trace st @ evs" "replay oldMSs (faults st) js evs = Some ys"
        "\<forall>l n. r1 = Inr (l, n) \<longrightarrow> l = ys" by auto
      from h(3) r(2) have "\<forall>n l. res = Inr (n, l) \<longrightarrow> l = ys"
        by (auto split: sum.splits)
      with h(1,2) r(1) show ?thesis by blast
    qed
  qed
qed

lemma replicasInt_sorted:
  "sum_list (map replicasInt (sortByCreationTimestamp oldMSs)) = sum_list (map replicasInt oldMSs)"
proof -
  have "mset (map replicasInt (sortByCreationTimestamp oldMSs)) = mset (map replicasInt oldMSs)"
    by (simp add: sortByCreationTimestamp_def)
  then show ?thesis by (metis sum_mset_sum_list)
qed

text \<open>
  Claim C7. On every input, what \<open>reconcileOldMachineSets\<close> adds to the trace, in the
  unhealthy cleanup and in the availability-gated scale-down together, is a run of
  requests that can be replayed on the old sets in creation order: each request carries
  the set as it is at that moment, after all the requests of the tick that came before
  it, and asks for a count that is no greater than the count the set has then. Hence the
  total of the replicas of the old sets, taken without wrap-around, is no greater after
  the tick than before. When the function returns sets, they are the sets after the last
  request (or the sets it was given, when it made no request, or none, when the cleanup
  failed).
\<close>

theorem reconcileOldMachineSets_never_scales_up:
  "\<exists>evs js sets'.
     trace (fst (reconcileOldMachineSets maxUnavail st allMSs oldMSs newMS d)) = trace st @ evs \<and>
     replay (sortByCreationTimestamp oldMSs) (faults st) js evs = Some sets' \<and>
     sum_list (map replicasInt sets') \<le> sum_list (map replicasInt oldMSs) \<and>
     (\<forall>oldMSs'. snd (reconcileOldMachineSets maxUnavail st allMSs oldMSs newMS d) = Inr oldMSs' \<longrightarrow>
        oldMSs' = sets' \<or> oldMSs' = [] \<or> oldMSs' = oldMSs \<and> evs = [])"
proof -
  let ?R = "reconcileOldMachineSets maxUnavail st allMSs oldMSs newMS d"
  have fin: ?thesis
    if "trace (fst ?R) = trace st @ evs"
      "replay (sortByCreationTimestamp oldMSs) (faults st) js evs = Some sets'"
      "\<forall>oldMSs'. snd ?R = Inr oldMSs' \<longrightarrow>
         oldMSs' = sets' \<or> oldMSs' = [] \<or> oldMSs' = oldMSs \<and> evs = []"
    for evs js sets'
  proof -
    from replay_total [OF that(2)] replicasInt_sorted [of oldMSs]
    have "sum_list (map replicasInt sets') \<le> sum_list (map replicasInt oldMSs)" by simp
    with that show ?thesis by blast
  qed
  show ?thesis
  proof (cases "md_Spec_Replicas d = None \<or> ms_Spec_Replicas newMS = None \<or>
      (\<exists>e. GetReplicaCountForMachineSets oldMSs = Inl e) \<or>
      GetReplicaCountForMachineSets oldMSs = Inr 0 \<or>
      (\<exists>e. GetReplicaCountForMachineSets allMSs = Inl e) \<or>
      (\<exists>replicas newReplicas allCount. md_Spec_Replicas d = Some replicas \<and>
          ms_Spec_Replicas newMS = Some newReplicas \<and>
          GetReplicaCountForMachineSets allMSs = Inr allCount \<and>
          allCount - (replicas - maxUnavail d) - (newReplicas - ms_Status_AvailableReplicas newMS) \<le>s 0)")
    case True
    then have "fst ?R = st" by (rule reconcileOld_early)
    moreover from True have "\<forall>oldMSs'. snd ?R = Inr oldMSs' \<longrightarrow> oldMSs' = oldMSs"
      by (auto simp: reconcileOldMachineSets_def Let_def split: option.splits sum.splits)
    ultimately show ?thesis
      by (intro fin [of "[]" "[]" "sortByCreationTimestamp oldMSs"]) simp_all
  next
    case False
    then obtain replicas newReplicas oldCount allCount where
      h: "md_Spec_Replicas d = Some replicas" "ms_Spec_Replicas newMS = Some newReplicas"
      "GetReplicaCountForMachineSets oldMSs = Inr oldCount" "oldCount \<noteq> 0"
      "GetReplicaCountForMachineSets allMSs = Inr allCount"
      "\<not> allCount - (replicas - maxUnavail d) - (newReplicas - ms_Status_AvailableReplicas newMS) \<le>s 0"
      by (cases "md_Spec_Replicas d"; cases "ms_Spec_Replicas newMS";
          cases "GetReplicaCountForMachineSets oldMSs"; cases "GetReplicaCountForMachineSets allMSs")
         auto
    define M where "M = allCount - (replicas - maxUnavail d) - (newReplicas - ms_Status_AvailableReplicas newMS)"
    note unf = reconcileOld_unfold [where maxUnavail = maxUnavail and st = st, OF h, folded M_def]
    obtain st1 r1 where c: "cleanupUnhealthyReplicas st oldMSs d M = (st1, r1)"
      by (cases "cleanupUnhealthyReplicas st oldMSs d M")
    from cleanupUnhealthy_replay [OF c] obtain evs1 js1 ys1 where
      a: "trace st1 = trace st @ evs1" "faults st1 = drop (length evs1) (faults st)"
      "replay (sortByCreationTimestamp oldMSs) (faults st) js1 evs1 = Some ys1"
      "\<forall>l n. r1 = Inr (l, n) \<longrightarrow> l = ys1" by auto
    show ?thesis
    proof (cases r1)
      case (Inl e)
      with unf c have "?R = (st1, Inr [])" by simp
      with a show ?thesis by (intro fin [of evs1 js1 ys1]) simp_all
    next
      case (Inr p)
      obtain l n where p: "p = (l, n)" by (cases p)
      with Inr a(4) have l: "l = ys1" by simp
      have "sorted (map ms_CreationTimestamp ys1)"
        using replay_timestamps [OF a(3)] sortByCreationTimestamp_sorted(1) [of oldMSs] by simp
      moreover obtain st2 r2 where s: "scaleDownOldMachineSetsForRollingUpdate maxUnavail st1
                   (ys1 @ [newMS]) ys1 d = (st2, r2)"
        by (cases "scaleDownOldMachineSetsForRollingUpdate maxUnavail st1 (ys1 @ [newMS]) ys1 d")
      ultimately obtain evs2 js2 ys2 where
        b: "trace st2 = trace st1 @ evs2" "replay ys1 (faults st1) js2 evs2 = Some ys2"
        "\<forall>n l. r2 = Inr (n, l) \<longrightarrow> l = ys2"
        using scaleDownOld_replay [of maxUnavail st1 "ys1 @ [newMS]" ys1 d st2 r2] by auto
      have R: "fst ?R = st2" "\<forall>oldMSs'. snd ?R = Inr oldMSs' \<longrightarrow> oldMSs' = ys2"
        using unf c Inr p l s b(3) by (auto split: sum.splits)
      have "replay (sortByCreationTimestamp oldMSs) (faults st) (js1 @ js2) (evs1 @ evs2) = Some ys2"
        using replay_append [OF a(3), of js2 evs2] b(2) a(2) by simp
      with R a(1) b(1) show ?thesis by (intro fin [of "evs1 @ evs2" "js1 @ js2" ys2]) simp_all
    qed
  qed
qed

text \<open>
  A tick in which both phases write to the same set: the cleanup takes \<open>A\<close> from four
  replicas to two, and the scale-down, which is handed the set with two replicas, takes
  it to one.
\<close>

theorem reconcileOldMachineSets_never_scales_up_witness:
  "reconcileOldMachineSets (\<lambda>_. 1) quietStore [twice_A, twice_N] [twice_A] twice_N twice_d =
     (\<lparr>trace = [ScaleRequest twice_A 2, ScaleRequest (twice_A\<lparr>ms_Spec_Replicas := Some 2\<rparr>) 1],
       faults = []\<rparr>, Inr [twice_A\<lparr>ms_Spec_Replicas := Some 1\<rparr>]) \<and>
   (\<exists>js. replay [twice_A] [] js
            [ScaleRequest twice_A 2, ScaleRequest (twice_A\<lparr>ms_Spec_Replicas := Some 2\<rparr>) 1] =
          Some [twice_A\<lparr>ms_Spec_Replicas := Some 1\<rparr>])"
proof -
  let ?R = "reconcileOldMachineSets (\<lambda>_. 1) quietStore [twice_A, twice_N] [twice_A] twice_N twice_d"
  have run: "?R =
     (\<lparr>trace = [ScaleRequest twice_A 2, ScaleRequest (twice_A\<lparr>ms_Spec_Replicas := Some 2\<rparr>) 1],
       faults = []\<rparr>, Inr [twice_A\<lparr>ms_Spec_Replicas := Some 1\<rparr>])"
    by (simp add: reconcileOldMachineSets_def eval_defs twice_A_def twice_N_def twice_d_def)
  from reconcileOldMachineSets_never_scales_up [of "\<lambda>_. 1" quietStore "[twice_A, twice_N]" "[twice_A]" twice_N twice_d]
  obtain evs js sets' where
    a: "trace (fst ?R) = trace quietStore @ evs"
    and b: "replay (sortByCreationTimestamp [twice_A]) (faults quietStore) js evs = Some sets'"
    and c: "\<forall>oldMSs'. snd ?R = Inr oldMSs' \<longrightarrow>
              oldMSs' = sets' \<or> oldMSs' = [] \<or> oldMSs' = [twice_A] \<and> evs = []"
    by blast
  from a have evs: "evs = [ScaleRequest twice_A 2, ScaleRequest (twice_A\<lparr>ms_Spec_Replicas := Some 2\<rparr>) 1]"
    unfolding run by (simp add: quietStore_def)
  from c have "sets' = [twice_A\<lparr>ms_Spec_Replicas := Some 1\<rparr>]"
    unfolding run evs by simp
  with b evs have "replay [twice_A] [] js
            [ScaleRequest twice_A 2, ScaleRequest (twice_A\<lparr>ms_Spec_Replicas := Some 2\<rparr>) 1] =
          Some [twice_A\<lparr>ms_Spec_Replicas := Some 1\<rparr>]"
    by (simp add: sortByCreationTimestamp_def quietStore_def)
  with run show ?thesis by blast
qed

section \<open>The order of a tick\<close>

lemma reconcileNew_trace:
  "\<exists>evs. trace (fst (reconcileNewMachineSet f st allMSs newMS d)) = trace st @ evs \<and>
         (\<forall>ev\<in>set evs. isScaleRequest ev)"
proof -
  have one: "\<exists>evs. trace (fst (case scaleMachineSet st newMS n d of
                                  (st', Inl err) \<Rightarrow> (st', Inl err)
                                | (st', Inr (_, newMS')) \<Rightarrow> (st', Inr newMS'))) = trace st @ evs \<and>
         (\<forall>ev\<in>set evs. isScaleRequest ev)" for n
    by (auto simp: scaleMachineSet_def storeRequest_def isScaleRequest_def
        split: option.splits list.splits)
  show ?thesis
    unfolding reconcileNewMachineSet_def
    using one by (auto split: option.splits sum.splits)
qed

lemma reducing_isScale: "reducingRequest ev \<Longrightarrow> isScaleRequest ev"
  by (cases ev) (simp_all add: reducingRequest_def isScaleRequest_def)

lemma ensureStatus_trace:
  "trace (fst (ensureStatus st d newMS oldMSs)) = trace st \<or>
   (\<exists>md'. trace (fst (ensureStatus st d newMS oldMSs)) = trace st @ [StatusUpdate md'])"
  by (auto simp: ensureStatus_def UpdateStatus_def storeRequest_def Let_def
      split: option.splits list.splits)

lemma completeAndSync_trace:
  "\<exists>hook sync. trace (fst (completeAndSync dc st d newMS oldMSs)) = trace st @ hook @ sync \<and>
     (hook = [] \<or> hook = [CleanupHook oldMSs] \<and> DeploymentComplete dc d (md_Status d)) \<and>
     (sync = [] \<or> (\<exists>md'. sync = [StatusUpdate md'])) \<and>
     (snd (completeAndSync dc st d newMS oldMSs) = None \<longrightarrow>
        (hook \<noteq> [] \<longleftrightarrow> DeploymentComplete dc d (md_Status d)))"
proof (cases "DeploymentComplete dc d (md_Status d)")
  case False
  from ensureStatus_trace [of st d newMS oldMSs]
  obtain sync where "trace (fst (ensureStatus st d newMS oldMSs)) = trace st @ sync"
    "sync = [] \<or> (\<exists>md'. sync = [StatusUpdate md'])" by auto
  with False have "trace (fst (completeAndSync dc st d newMS oldMSs)) = trace st @ [] @ sync"
    by (auto simp: completeAndSync_def split: prod.splits sum.splits)
  with False \<open>sync = [] \<or> (\<exists>md'. sync = [StatusUpdate md'])\<close> show ?thesis by blast
next
  case True
  define st1 where "st1 = st\<lparr>trace := trace st @ [CleanupHook oldMSs]\<rparr>"
  show ?thesis
  proof (cases "cleanupDeployment dc oldMSs d")
    case (Some err)
    with True have "trace (fst (completeAndSync dc st d newMS oldMSs)) =
        trace st @ [CleanupHook oldMSs] @ []"
      "snd (completeAndSync dc st d newMS oldMSs) \<noteq> None"
      by (simp_all add: completeAndSync_def)
    with True show ?thesis by blast
  next
    case None
    from ensureStatus_trace [of st1 d newMS oldMSs]
    obtain sync where "trace (fst (ensureStatus st1 d newMS oldMSs)) = trace st1 @ sync"
      "sync = [] \<or> (\<exists>md'. sync = [StatusUpdate md'])" by auto
    with True None have "trace (fst (completeAndSync dc st d newMS oldMSs)) =
        trace st @ [CleanupHook oldMSs] @ sync"
      by (auto simp: completeAndSync_def st1_def split: prod.splits sum.splits)
    with True \<open>sync = [] \<or> (\<exists>md'. sync = [StatusUpdate md'])\<close> show ?thesis by blast
  qed
qed

lemma reconcileOld_isScale:
  "\<exists>evs. trace (fst (reconcileOldMachineSets maxUnavail st allMSs oldMSs newMS d)) = trace st @ evs \<and>
         (\<forall>ev\<in>set evs. isScaleRequest ev)"
proof -
  from reconcileOld_route [of maxUnavail st allMSs oldMSs newMS d]
  consider (none) "fst (reconcileOldMachineSets maxUnavail st allMSs oldMSs newMS d) = st"
    | (cleanup) M st1 r1 where "cleanupUnhealthyReplicas st oldMSs d M = (st1, r1)"
        "fst (reconcileOldMachineSets maxUnavail st allMSs oldMSs newMS d) = st1"
    | (both) M st1 r1 oldMSs1 st2 r2 where "cleanupUnhealthyReplicas st oldMSs d M = (st1, r1)"
        "scaleDownOldMachineSetsForRollingUpdate maxUnavail st1 (oldMSs1 @ [newMS]) oldMSs1 d =
           (st2, r2)"
        "fst (reconcileOldMachineSets maxUnavail st allMSs oldMSs newMS d) = st2"
    by blast
  then show ?thesis
  proof cases
    case none
    then show ?thesis by simp
  next
    case cleanup
    with cleanupUnhealthy_trace [OF cleanup(1)] reducing_isScale show ?thesis by auto
  next
    case both
    from cleanupUnhealthy_trace [OF both(1)] reducing_isScale obtain evs1 where
      e1: "trace st1 = trace st @ evs1" "\<forall>ev\<in>set evs1. isScaleRequest ev" by blast
    from scaleDownOld_trace [OF both(2)] reducing_isScale obtain evs2 where
      e2: "trace st2 = trace st1 @ evs2" "\<forall>ev\<in>set evs2. isScaleRequest ev" by blast
    have "trace st2 = trace st @ (evs1 @ evs2)" "\<forall>ev\<in>set (evs1 @ evs2). isScaleRequest ev"
      using e1 e2 by auto
    with both(3) show ?thesis by metis
  qed
qed

text \<open>
  The tick of the stale deployment: its status says complete, its set has lost an
  available replica. The hook runs, then the status is written.
\<close>

lemma stale_tick:
  "rolloutRolling (settledController degraded_N []) quietStore stale_d [degraded_N] () =
     (\<lparr>trace = [CleanupHook [], StatusUpdate (stale_d\<lparr>md_Status := degradedStatus\<rparr>)],
       faults = []\<rparr>, None)"
  by (simp add: rolloutRolling_def settledController_def reconcileNewMachineSet_def
      reconcileOldMachineSets_def completeAndSync_def ensureStatus_def UpdateStatus_def
      storeRequest_def specDeploymentComplete_def stale_d_def degraded_N_def degradedStatus_def
      quietStore_def Let_def word_sle_eq word_sless_alt)

text \<open>
  Claim C2, with the order that the code has. What a tick of \<open>rolloutRolling\<close> adds to
  the trace is, in this order: the scale requests of the two planners; at most one
  invocation of the cleanup hook; at most one status update. The hook is invoked only if
  the completeness predicate holds of the status that the deployment carries into the
  tick, and, in a tick that ends without an error, exactly if it does: the check comes
  before the status aggregation of the tick and does not read its result.
\<close>

theorem rolloutRolling_completeness_before_status:
  "\<exists>scales hook sync.
     trace (fst (rolloutRolling dc st d msList machineMap)) = trace st @ scales @ hook @ sync \<and>
     (\<forall>ev\<in>set scales. isScaleRequest ev) \<and>
     (hook = [] \<or> (\<exists>oldMSs. hook = [CleanupHook oldMSs]) \<and> DeploymentComplete dc d (md_Status d)) \<and>
     (sync = [] \<or> (\<exists>md'. sync = [StatusUpdate md'])) \<and>
     (snd (rolloutRolling dc st d msList machineMap) = None \<longrightarrow>
        (hook \<noteq> [] \<longleftrightarrow> DeploymentComplete dc d (md_Status d)))"
proof -
  let ?P = "\<lambda>st' res scales hook sync.
     trace st' = trace st @ scales @ hook @ sync \<and>
     (\<forall>ev\<in>set scales. isScaleRequest ev) \<and>
     (hook = [] \<or> (\<exists>oldMSs. hook = [CleanupHook oldMSs]) \<and> DeploymentComplete dc d (md_Status d)) \<and>
     (sync = [] \<or> (\<exists>md'. sync = [StatusUpdate md'])) \<and>
     (res = None \<longrightarrow> (hook \<noteq> [] \<longleftrightarrow> DeploymentComplete dc d (md_Status d)))"
  have early: "\<exists>scales hook sync. ?P st' (Some err) scales hook sync"
    if "trace st' = trace st @ scales" "\<forall>ev\<in>set scales. isScaleRequest ev" for st' err scales
    using that by (intro exI [of _ scales] exI [of _ "[]"]) simp
  show ?thesis
  proof (cases "getAllMachineSetsAndSyncRevision dc d msList machineMap True")
    case (Inl err)
    then have "rolloutRolling dc st d msList machineMap = (st, Some err)"
      by (simp add: rolloutRolling_def)
    with early [of st "[]" err] show ?thesis by simp
  next
    case (Inr p)
    obtain newMS oldMSs where p: "p = (newMS, oldMSs)" by (cases p)
    obtain st1 r1 where n: "reconcileNewMachineSet (NewMSNewReplicas dc) st (oldMSs @ [newMS]) newMS d
        = (st1, r1)" by (cases "reconcileNewMachineSet (NewMSNewReplicas dc) st (oldMSs @ [newMS]) newMS d")
    from reconcileNew_trace [of "NewMSNewReplicas dc" st "oldMSs @ [newMS]" newMS d] n
    obtain evs1 where e1: "trace st1 = trace st @ evs1" "\<forall>ev\<in>set evs1. isScaleRequest ev"
      by auto
    show ?thesis
    proof (cases r1)
      case (Inl err)
      with Inr p n have "rolloutRolling dc st d msList machineMap = (st1, Some err)"
        by (simp add: rolloutRolling_def)
      with early [OF e1, of err] show ?thesis by simp
    next
      case newOk: (Inr newMS1)
      obtain st2 r2 where o: "reconcileOldMachineSets (MaxUnavailable dc) st1 (oldMSs @ [newMS])
          oldMSs newMS1 d = (st2, r2)"
        by (cases "reconcileOldMachineSets (MaxUnavailable dc) st1 (oldMSs @ [newMS])
          oldMSs newMS1 d")
      from reconcileOld_isScale [of "MaxUnavailable dc" st1 "oldMSs @ [newMS]" oldMSs newMS1 d] o
      obtain evs2 where e2: "trace st2 = trace st1 @ evs2" "\<forall>ev\<in>set evs2. isScaleRequest ev"
        by auto
      with e1 have e12: "trace st2 = trace st @ (evs1 @ evs2)"
        "\<forall>ev\<in>set (evs1 @ evs2). isScaleRequest ev" by auto
      show ?thesis
      proof (cases r2)
        case (Inl err)
        with Inr p n newOk o have "rolloutRolling dc st d msList machineMap = (st2, Some err)"
          by (simp add: rolloutRolling_def)
        with early [OF e12, of err] show ?thesis by simp
      next
        case oldOk: (Inr oldMSs2)
        with Inr p n newOk o have run: "rolloutRolling dc st d msList machineMap =
            completeAndSync dc st2 d newMS1 oldMSs2"
          by (simp add: rolloutRolling_def)
        from completeAndSync_trace [of dc st2 d newMS1 oldMSs2]
        obtain hook sync where
          "trace (fst (completeAndSync dc st2 d newMS1 oldMSs2)) = trace st2 @ hook @ sync"
          "hook = [] \<or> hook = [CleanupHook oldMSs2] \<and> DeploymentComplete dc d (md_Status d)"
          "sync = [] \<or> (\<exists>md'. sync = [StatusUpdate md'])"
          "snd (completeAndSync dc st2 d newMS1 oldMSs2) = None \<longrightarrow>
             (hook \<noteq> [] \<longleftrightarrow> DeploymentComplete dc d (md_Status d))"
          by (elim exE conjE) (rule that; assumption)
        with e12 run have P: "?P (fst (rolloutRolling dc st d msList machineMap))
            (snd (rolloutRolling dc st d msList machineMap)) (evs1 @ evs2) hook sync"
          by auto
        show ?thesis by (rule exI)+ (rule P)
      qed
    qed
  qed
qed

theorem rolloutRolling_completeness_before_status_witness:
  "snd (rolloutRolling (settledController degraded_N []) quietStore stale_d [degraded_N] ()) = None \<and>
   DeploymentComplete (settledController degraded_N []) stale_d (md_Status stale_d) \<and>
   (\<exists>scales hook sync.
      trace (fst (rolloutRolling (settledController degraded_N []) quietStore stale_d [degraded_N] ()))
        = scales @ hook @ sync \<and>
      (\<forall>ev\<in>set scales. isScaleRequest ev) \<and> hook \<noteq> [] \<and>
      (sync = [] \<or> (\<exists>md'. sync = [StatusUpdate md'])))"
proof -
  have ok: "snd (rolloutRolling (settledController degraded_N []) quietStore stale_d [degraded_N] ()) = None"
    using stale_tick by simp
  have dc: "DeploymentComplete (settledController degraded_N []) stale_d (md_Status stale_d)"
    by (simp add: settledController_def specDeploymentComplete_def stale_d_def word_sle_eq)
  from rolloutRolling_completeness_before_status [of "settledController degraded_N []" quietStore stale_d "[degraded_N]" "()"] ok dc
  show ?thesis by (auto simp: quietStore_def)
qed

text \<open>
  In the tick of the stale deployment the cleanup hook is invoked before the status is
  written, and the status that this tick aggregates (one replica available of two) is
  not complete.
\<close>

theorem rolloutRolling_status_after_cleanup_counterexample:
  "rolloutRolling (settledController degraded_N []) quietStore stale_d [degraded_N] () =
     (\<lparr>trace = [CleanupHook [], StatusUpdate (stale_d\<lparr>md_Status := degradedStatus\<rparr>)],
       faults = []\<rparr>, None) \<and>
   \<not> DeploymentComplete (settledController degraded_N []) stale_d degradedStatus"
  using stale_tick
  by (simp add: settledController_def specDeploymentComplete_def stale_d_def degradedStatus_def)

section \<open>Validation of the rolling-update strategy\<close>

text \<open>
  On a string of the form \<^verbatim>\<open>N%\<close> the library does what the specification says: the
  percent check accepts it, and the parser reads the number \<open>N\<close>.
\<close>

lemma parseDigits_digits:
  "list_all isDigit ds \<Longrightarrow>
   parseDigits n ds = Some (foldl (\<lambda>n c. n * 10 + (int (of_char c) - 48)) n ds)"
  by (induction ds arbitrary: n) simp_all

lemma foldl_digits_nonneg:
  "0 \<le> n \<Longrightarrow> list_all isDigit ds \<Longrightarrow>
   0 \<le> foldl (\<lambda>n c. n * 10 + (int (of_char c) - 48)) n ds"
  by (induction ds arbitrary: n) (auto simp: isDigit_def)

lemma digit_no_sign:
  "isDigit c \<Longrightarrow> c \<noteq> CHR ''%'' \<and> c \<noteq> CHR ''-'' \<and> c \<noteq> CHR ''+''"
  by (auto simp: isDigit_def)

lemma Atoi_digits:
  assumes "ds \<noteq> []" "list_all isDigit ds"
    "foldl (\<lambda>n c. n * 10 + (int (of_char c) - 48)) 0 ds < 2 ^ 63"
  shows "Atoi ds = Some (foldl (\<lambda>n c. n * 10 + (int (of_char c) - 48)) 0 ds)"
proof -
  obtain c cs where ds: "ds = c # cs" using assms(1) by (cases ds) auto
  with assms(2) have c: "c \<noteq> CHR ''-''" "c \<noteq> CHR ''+''" using digit_no_sign by auto
  have nn: "0 \<le> foldl (\<lambda>n c. n * 10 + (int (of_char c) - 48)) 0 ds"
    using assms(2) by (intro foldl_digits_nonneg) simp_all
  have "- (2 ^ 63) \<le> foldl (\<lambda>n c. n * 10 + (int (of_char c) - 48)) 0 ds"
    using nn by (rule order_trans [rotated]) simp
  with assms(3) show ?thesis
    unfolding Atoi_def using c assms(1) parseDigits_digits [OF assms(2), of 0]
    by (simp add: ds)
qed

lemma percentString_filter:
  assumes "percentString s"
  shows "filter (\<lambda>c. c \<noteq> CHR ''%'') s = butlast s"
proof -
  from assms have s: "s = butlast s @ [CHR ''%'']" "list_all isDigit (butlast s)"
    by (auto simp: percentString_def) (metis append_butlast_last_id)
  have "filter (\<lambda>c. c \<noteq> CHR ''%'') (butlast s) = butlast s"
    using s(2) digit_no_sign by (auto simp: list_all_iff intro!: filter_True)
  then have "filter (\<lambda>c. c \<noteq> CHR ''%'') (butlast s @ [CHR ''%'']) = butlast s" by simp
  with s(1) show ?thesis by simp
qed

lemma IsValidPercent_percentString: "IsValidPercent s = [] \<longleftrightarrow> percentString s"
proof (cases s rule: rev_cases)
  case Nil
  then show ?thesis by (simp add: IsValidPercent_def percentString_def)
next
  case (snoc ds c)
  then show ?thesis by (auto simp: IsValidPercent_def percentString_def list_all_iff)
qed

lemma scale_exact: "- (- (x * 100) div 100) = (x::int)" "x * 100 div 100 = x"
proof -
  have "- (x * 100) div 100 = - x"
    by (metis mult_minus_left nonzero_mult_div_cancel_right zero_neq_numeral)
  then show "- (- (x * 100) div 100) = x" by simp
  show "x * 100 div 100 = x" by simp
qed

lemma getIntOrPercent_wellFormed:
  assumes "wellFormed v"
  shows "getIntOrPercent v roundUp = (wordedValue v, None)"
proof (cases "Type v")
  case intstr_Int
  then show ?thesis
    by (simp add: getIntOrPercent_def GetValueFromIntOrPercent_def getIntOrPercentValue_def
        wordedValue_def)
next
  case intstr_String
  with assms have p: "percentString (StrVal v)" "percentValue (StrVal v) * 100 < 2 ^ 53"
    by (simp_all add: wellFormed_def)
  from p(1) have d: "butlast (StrVal v) \<noteq> []" "list_all isDigit (butlast (StrVal v))"
    by (simp_all add: percentString_def)
  have "0 \<le> percentValue (StrVal v)"
    unfolding percentValue_def using d(2) by (intro foldl_digits_nonneg) simp_all
  with p(2) have "percentValue (StrVal v) < 2 ^ 63" by simp
  then have "Atoi (butlast (StrVal v)) = Some (percentValue (StrVal v))"
    unfolding percentValue_def using d by (intro Atoi_digits)
  with intstr_String show ?thesis
    by (simp add: getIntOrPercent_def GetValueFromIntOrPercent_def getIntOrPercentValue_def
        wordedValue_def percentString_filter [OF p(1)] scale_exact)
qed

lemma wellFormed_not_malformed: "wellFormed v \<Longrightarrow> \<not> malformed v"
  by (auto simp: wellFormed_def malformed_def split: intstr_Type.splits)

lemma ValidatePositive_wellFormed:
  "wellFormed v \<Longrightarrow> ValidatePositiveIntOrPercent v p = [] \<longleftrightarrow> \<not> wordedValue v < 0"
  by (simp add: ValidatePositiveIntOrPercent_def getIntOrPercent_wellFormed)

lemma percent_wellFormed:
  "wellFormed v \<Longrightarrow>
   percentString (StrVal v) \<longleftrightarrow> Type v = intstr_String \<and> percentString (StrVal v)"
  by (cases "Type v") (auto simp: wellFormed_def percentString_def)

text \<open>When the validator returns an error, in terms of what it calls.\<close>

lemma Validate_nonempty:
  "ValidateMachineRollingUpdateDeployment rollingUpdate fldPath \<noteq> [] \<longleftrightarrow>
     (case ru_MaxUnavailable rollingUpdate of
        None \<Rightarrow> False
      | Some mu \<Rightarrow>
          ValidatePositiveIntOrPercent mu (fldPath @ [''maxUnavailable'']) \<noteq> [] \<or>
          IsValidPercent (StrVal mu) = [] \<and> 100 < fst (getIntOrPercent mu False)) \<or>
     (case ru_MaxSurge rollingUpdate of
        None \<Rightarrow> False
      | Some ms \<Rightarrow> ValidatePositiveIntOrPercent ms (fldPath @ [''maxSurge'']) \<noteq> []) \<or>
     (case (ru_MaxUnavailable rollingUpdate, ru_MaxSurge rollingUpdate) of
        (Some mu, Some ms) \<Rightarrow>
          fst (getIntOrPercent mu False) = 0 \<and> fst (getIntOrPercent ms True) = 0
      | _ \<Rightarrow> False)"
  by (cases "ru_MaxUnavailable rollingUpdate"; cases "ru_MaxSurge rollingUpdate")
     (auto simp: ValidateMachineRollingUpdateDeployment_def Let_def)

text \<open>
  On strategies whose values are well formed, the validator returns an error exactly when
  the specification has it reject: what is left of the claim is about the values that are
  not well formed.
\<close>

lemma ValidateMachineRollingUpdateDeployment_wellFormed:
  assumes "\<And>v. ru_MaxUnavailable rollingUpdate = Some v \<Longrightarrow> wellFormed v"
    and "\<And>v. ru_MaxSurge rollingUpdate = Some v \<Longrightarrow> wellFormed v"
  shows "ValidateMachineRollingUpdateDeployment rollingUpdate fldPath \<noteq> [] \<longleftrightarrow>
         rejectedAsWorded rollingUpdate"
proof (cases "ru_MaxUnavailable rollingUpdate")
  case None
  show ?thesis
  proof (cases "ru_MaxSurge rollingUpdate")
    case n: None
    with None show ?thesis by (simp add: Validate_nonempty rejectedAsWorded_def present_def)
  next
    case (Some ms)
    with assms(2) have "wellFormed ms" by simp
    with None Some show ?thesis
      by (simp add: Validate_nonempty rejectedAsWorded_def present_def
          ValidatePositive_wellFormed wellFormed_not_malformed)
  qed
next
  case (Some mu)
  with assms(1) have mu: "wellFormed mu" by simp
  show ?thesis
  proof (cases "ru_MaxSurge rollingUpdate")
    case None
    with Some mu show ?thesis
      using percent_wellFormed [OF mu]
      by (simp add: Validate_nonempty rejectedAsWorded_def present_def
          ValidatePositive_wellFormed wellFormed_not_malformed getIntOrPercent_wellFormed
          IsValidPercent_percentString)
         blast
  next
    case s: (Some ms)
    with assms(2) have ms: "wellFormed ms" by simp
    with Some s mu show ?thesis
      using percent_wellFormed [OF mu]
      by (simp add: Validate_nonempty rejectedAsWorded_def present_def
          ValidatePositive_wellFormed wellFormed_not_malformed getIntOrPercent_wellFormed
          IsValidPercent_percentString)
         blast
  qed
qed

text \<open>
  Claim C9. The claim has the validator return an error for a value that is malformed,
  that is, neither an integer nor a string of the form \<^verbatim>\<open>N%\<close>, and for a
  \<^verbatim>\<open>maxUnavailable\<close> that is a percentage above 100. The validator does not do so for
  the string \<^verbatim>\<open>150\<close>: it is not of the form \<^verbatim>\<open>N%\<close>, the parser that the validator
  relies on reads it as the percentage 150 all the same, and the validator, which
  compares with 100 only a string that passes the percent check, returns no error. For
  the string \<^verbatim>\<open>150%\<close> it returns one. The message of the validator (\<^verbatim>\<open>value should be
  int(5) or percentage(5%)\<close>) and its comment (\<^verbatim>\<open>Validate that MaxUnavailable is not more
  than 100%\<close>) say what the claim says.
\<close>

theorem ValidateMachineRollingUpdateDeployment_accepts_malformed:
  "malformed (FromString ''150'') \<and>
   rejectedAsWorded \<lparr>ru_MaxUnavailable = Some (FromString ''150''), ru_MaxSurge = Some (FromInt 1)\<rparr> \<and>
   getIntOrPercentValue (FromString ''150'') = (150, True, None) \<and>
   ValidateMachineRollingUpdateDeployment
     \<lparr>ru_MaxUnavailable = Some (FromString ''150''), ru_MaxSurge = Some (FromInt 1)\<rparr>
     [''rollingUpdate''] = [] \<and>
   ValidateMachineRollingUpdateDeployment
     \<lparr>ru_MaxUnavailable = Some (FromString ''150%''), ru_MaxSurge = Some (FromInt 1)\<rparr>
     [''rollingUpdate''] \<noteq> []"
  by (simp add: ValidateMachineRollingUpdateDeployment_def ValidatePositiveIntOrPercent_def
      getIntOrPercent_def GetValueFromIntOrPercent_def getIntOrPercentValue_def Atoi_def
      IsValidPercent_def isDigit_def FromInt_def FromString_def Let_def malformed_def
      percentString_def rejectedAsWorded_def present_def)


end
